theory Spec2Isabelle
  imports Main "HOL-Library.Sublist" "HOL-Library.Word"
begin

unbundle bit_operations_syntax

section \<open>The project patcher \<^verbatim>\<open>add-files-to-xcode.py\<close>\<close>

text \<open>
  The script reads the Xcode project manifest, copies it to a backup, walks over the fixed
  list \<^verbatim>\<open>V5_FILES\<close>, inserts three text fragments per missing file with \<^verbatim>\<open>re.sub\<close>, writes
  the text back when something was added, removes the derived-data directories of the
  project and runs \<^verbatim>\<open>xcodebuild\<close>, whose return code it passes to \<^verbatim>\<open>exit\<close>.

  Text is a \<^typ>\<open>string\<close>, a list of bytes: a character outside ASCII stands as its UTF-8
  bytes. The patterns of the script and the names of \<^verbatim>\<open>V5_FILES\<close> are ASCII, and no byte of
  a multi-byte UTF-8 sequence is an ASCII byte, so matching and searching on the bytes of
  a valid text give what Python gives on its characters. The file system is a map from
  paths to the bytes of regular files, each of which can be read and written. The random
  bytes behind \<^verbatim>\<open>uuid.uuid4\<close> and the shell that runs the build are inputs of \<open>main\<close>.

  The replacement of a \<^verbatim>\<open>re.sub\<close> is a template in which Python reads a backslash as
  the start of an escape. The templates here are given in parsed form, as texts and group
  references; that is what Python makes of them when the names and paths that enter them
  hold no backslash, as is the case for \<^verbatim>\<open>V5_FILES\<close>, the only list the script runs on.
\<close>

subsection \<open>Strings\<close>

text \<open>\<^verbatim>\<open>needle in text\<close> on Python strings: the needle occurs as a contiguous run.\<close>

fun str_in :: "string \<Rightarrow> string \<Rightarrow> bool" where
  "str_in n [] = (n = [])"
| "str_in n (c # cs) = (prefix n (c # cs) \<or> str_in n cs)"

text \<open>\<^verbatim>\<open>str(n)\<close> for a non-negative integer.\<close>

definition digit_char :: "nat \<Rightarrow> char" where
  "digit_char d = char_of (48 + d)"

fun str_nat :: "nat \<Rightarrow> string" where
  "str_nat n = (if n < 10 then [digit_char n] else str_nat (n div 10) @ [digit_char (n mod 10)])"

text \<open>\<^verbatim>\<open>str.upper\<close> on ASCII text.\<close>

definition upper_char :: "char \<Rightarrow> char" where
  "upper_char c = (let k = (of_char c :: nat) in if 97 \<le> k \<and> k \<le> 122 then char_of (k - 32) else c)"

definition py_upper :: "string \<Rightarrow> string" where
  "py_upper s = map upper_char s"

text \<open>
  \<^verbatim>\<open>str.strip()\<close> removes leading and trailing whitespace, which in ASCII is the characters
  9 to 13, 28 to 31 and 32; \<^verbatim>\<open>split('\n')\<close> cuts at every newline; \<^verbatim>\<open>lines[-30:]\<close> keeps the
  last thirty elements, or all of them.
\<close>

definition is_space :: "char \<Rightarrow> bool" where
  "is_space c = (let k = (of_char c :: nat) in (9 \<le> k \<and> k \<le> 13) \<or> (28 \<le> k \<and> k \<le> 32))"

definition py_strip :: "string \<Rightarrow> string" where
  "py_strip s = rev (dropWhile is_space (rev (dropWhile is_space s)))"

fun split_nl :: "string \<Rightarrow> string list" where
  "split_nl [] = [[]]"
| "split_nl (c # cs) =
     (if c = CHR 0x0A then [] # split_nl cs
      else (case split_nl cs of [] \<Rightarrow> [[c]] | l # ls \<Rightarrow> (c # l) # ls))"

definition last_n :: "nat \<Rightarrow> 'a list \<Rightarrow> 'a list" where
  "last_n n xs = drop (length xs - n) xs"

subsection \<open>The regular expressions of the script\<close>

text \<open>
  The three patterns are built from two constructs only: a literal text and the greedy
  repetition \<^verbatim>\<open>[^c]*\<close> of every character but one. A pattern is the sequence of its capture
  groups, and a group is a sequence of such items (in the three patterns every item lies in
  a group, and groups do not nest).

  Matching follows the backtracking matcher of \<^verbatim>\<open>re\<close>: a literal must be a prefix of the
  text; a repetition first takes the longest run of admissible characters and gives them
  back one at a time until the rest of the pattern matches. The result is the text matched
  by each item, and the text left over.
\<close>

datatype item = Lit string | StarNot char

type_synonym pattern = "item list list"

type_synonym matched = "string list \<times> string"

fun greedy :: "(string \<Rightarrow> matched option) \<Rightarrow> string \<Rightarrow> nat \<Rightarrow> matched option" where
  "greedy k s 0 = (case k s of None \<Rightarrow> None | Some (ps, r) \<Rightarrow> Some ([] # ps, r))"
| "greedy k s (Suc n) =
     (case k (drop (Suc n) s) of
        None \<Rightarrow> greedy k s n
      | Some (ps, r) \<Rightarrow> Some (take (Suc n) s # ps, r))"

primrec match_items :: "item list \<Rightarrow> string \<Rightarrow> matched option" where
  "match_items [] s = Some ([], s)"
| "match_items (i # is) s =
     (case i of
        Lit l \<Rightarrow>
          (if prefix l s
           then (case match_items is (drop (length l) s) of
                   None \<Rightarrow> None
                 | Some (ps, r) \<Rightarrow> Some (l # ps, r))
           else None)
      | StarNot c \<Rightarrow> greedy (match_items is) s (length (takeWhile (\<lambda>x. x \<noteq> c) s)))"

text \<open>The text of each group is the concatenation of the texts of its items.\<close>

fun regroup :: "pattern \<Rightarrow> string list \<Rightarrow> string list" where
  "regroup [] ps = []"
| "regroup (g # gs) ps = concat (take (length g) ps) # regroup gs (drop (length g) ps)"

definition re_match :: "pattern \<Rightarrow> string \<Rightarrow> matched option" where
  "re_match p s =
     (case match_items (concat p) s of
        None \<Rightarrow> None
      | Some (ps, r) \<Rightarrow> Some (regroup p ps, r))"

text \<open>
  \<^verbatim>\<open>re.search\<close>: the leftmost position at which the pattern matches. The result is the text
  before the match, the texts of the groups, and the text after the match.
\<close>

fun re_search :: "pattern \<Rightarrow> string \<Rightarrow> (string \<times> string list \<times> string) option" where
  "re_search p [] =
     (case re_match p [] of None \<Rightarrow> None | Some (gs, r) \<Rightarrow> Some ([], gs, r))"
| "re_search p (c # cs) =
     (case re_match p (c # cs) of
        Some (gs, r) \<Rightarrow> Some ([], gs, r)
      | None \<Rightarrow>
          (case re_search p cs of
             None \<Rightarrow> None
           | Some (a, gs, r) \<Rightarrow> Some (c # a, gs, r)))"

text \<open>
  A replacement template, as \<^verbatim>\<open>re\<close> parses it: literal text and group references
  \<^verbatim>\<open>\1\<close>, \<^verbatim>\<open>\2\<close>. The templates of the script are written in this parsed form; the text
  they are built from (identifiers, and the names and paths of \<^verbatim>\<open>V5_FILES\<close>) holds no
  backslash, so that the only escapes are the ones the script writes itself. A reference to
  a group the pattern does not have is rejected by \<^verbatim>\<open>re\<close>; \<open>template_ok\<close> excludes it, and
  the templates of the script satisfy it.
\<close>

datatype tpart = Text string | Group nat

fun expand :: "tpart list \<Rightarrow> string list \<Rightarrow> string" where
  "expand [] gs = []"
| "expand (Text x # t) gs = x @ expand t gs"
| "expand (Group i # t) gs = (if 1 \<le> i \<and> i \<le> length gs then gs ! (i - 1) else []) @ expand t gs"

fun template_ok :: "pattern \<Rightarrow> tpart list \<Rightarrow> bool" where
  "template_ok p [] = True"
| "template_ok p (Text x # t) = template_ok p t"
| "template_ok p (Group i # t) = (1 \<le> i \<and> i \<le> length p \<and> template_ok p t)"

text \<open>
  A match covers a prefix of the text: the matched pieces followed by the rest give the text
  back. This is what makes the scan of \<^verbatim>\<open>re.sub\<close> below terminate.
\<close>

lemma greedy_split:
  assumes "\<And>u ps r. k u = Some (ps, r) \<Longrightarrow> u = concat ps @ r"
  shows "greedy k s n = Some (ps, r) \<Longrightarrow> s = concat ps @ r"
proof (induction n)
  case 0
  then show ?case using assms by (auto split: option.splits)
next
  case (Suc n)
  show ?case
  proof (cases "k (drop (Suc n) s)")
    case None
    with Suc show ?thesis by simp
  next
    case (Some m)
    obtain qs r' where m: "m = (qs, r')" by (cases m)
    with Some Suc.prems have eq: "ps = take (Suc n) s # qs" "r = r'" by auto
    from assms[of "drop (Suc n) s" qs r'] Some m have "drop (Suc n) s = concat qs @ r'" by simp
    then have "take (Suc n) s @ concat qs @ r' = s"
      by (metis append_take_drop_id)
    with eq show ?thesis by simp
  qed
qed

lemma match_items_split: "match_items is s = Some (ps, r) \<Longrightarrow> s = concat ps @ r"
proof (induction "is" arbitrary: s ps r)
  case Nil
  then show ?case by simp
next
  case (Cons i "is")
  show ?case
  proof (cases i)
    case (Lit l)
    with Cons.prems obtain qs where p: "prefix l s"
      and m: "match_items is (drop (length l) s) = Some (qs, r)" and ps: "ps = l # qs"
      by (auto split: if_splits option.splits)
    from Cons.IH[OF m] p ps show ?thesis
      by (auto simp: prefix_def)
  next
    case (StarNot c)
    with Cons.prems have "greedy (match_items is) s (length (takeWhile (\<lambda>x. x \<noteq> c) s)) = Some (ps, r)"
      by simp
    then show ?thesis
      by (rule greedy_split[rotated]) (rule Cons.IH)
  qed
qed

lemma greedy_length:
  assumes "\<And>u ps r. k u = Some (ps, r) \<Longrightarrow> length ps = m"
  shows "greedy k s n = Some (ps, r) \<Longrightarrow> length ps = Suc m"
  using assms by (induction n) (auto split: option.splits)

lemma match_items_length: "match_items is s = Some (ps, r) \<Longrightarrow> length ps = length is"
proof (induction "is" arbitrary: s ps r)
  case Nil
  then show ?case by simp
next
  case (Cons i "is")
  show ?case
  proof (cases i)
    case (Lit l)
    with Cons show ?thesis by (auto split: if_splits option.splits)
  next
    case (StarNot c)
    with Cons.prems have "greedy (match_items is) s (length (takeWhile (\<lambda>x. x \<noteq> c) s)) = Some (ps, r)"
      by simp
    then have "length ps = Suc (length is)"
      by (rule greedy_length[rotated]) (rule Cons.IH)
    then show ?thesis by simp
  qed
qed

lemma concat_regroup: "length ps = length (concat p) \<Longrightarrow> concat (regroup p ps) = concat ps"
proof (induction p arbitrary: ps)
  case Nil
  then show ?case by simp
next
  case (Cons g p)
  then have "concat (regroup p (drop (length g) ps)) = concat (drop (length g) ps)"
    by simp
  then have "concat (regroup (g # p) ps) = concat (take (length g) ps @ drop (length g) ps)"
    by (simp del: append_take_drop_id)
  then show ?case by simp
qed

lemma length_regroup: "length (regroup p ps) = length p"
  by (induction p arbitrary: ps) auto

lemma re_match_split: "re_match p s = Some (gs, r) \<Longrightarrow> s = concat gs @ r"
  by (auto simp: re_match_def concat_regroup match_items_length split: option.splits
      dest: match_items_split)

lemma re_search_split: "re_search p s = Some (a, gs, r) \<Longrightarrow> s = a @ concat gs @ r"
  by (induction s arbitrary: a) (auto split: option.splits dest: re_match_split)

text \<open>
  \<^verbatim>\<open>re.sub(pattern, template, text)\<close>: every match found from left to right is replaced by
  the expanded template, and the scan goes on behind the match. After a match of no
  character the next character is copied and the scan goes on behind it (the patterns of
  the script never match the empty text: each starts with a literal).
\<close>

function re_sub :: "pattern \<Rightarrow> tpart list \<Rightarrow> string \<Rightarrow> string" where
  "re_sub p t s =
     (case re_search p s of
        None \<Rightarrow> s
      | Some (a, gs, r) \<Rightarrow>
          if concat gs = []
          then (case r of [] \<Rightarrow> a @ expand t gs | c # cs \<Rightarrow> a @ expand t gs @ c # re_sub p t cs)
          else a @ expand t gs @ re_sub p t r)"
  by pat_completeness auto

termination
  by (relation "measure (\<lambda>(p, t, s). length s)") (auto dest!: re_search_split)

declare re_sub.simps [simp del]

subsection \<open>Constants and identifiers\<close>

definition PROJECT_DIR :: string where
  "PROJECT_DIR = ''Redi''"

definition PROJECT_NAME :: string where
  "PROJECT_NAME = ''Redi''"

definition PBXPROJ_PATH :: string where
  "PBXPROJ_PATH = PROJECT_DIR @ ''/'' @ PROJECT_NAME @ ''.xcodeproj/project.pbxproj''"

definition V5_FILES :: "(string \<times> string) list" where
  "V5_FILES =
     [(''V5/Config/V5Config.swift'', ''V5Config.swift''),
      (''V5/Services/V5AudioService.swift'', ''V5AudioService.swift''),
      (''V5/Services/V5WebSocketService.swift'', ''V5WebSocketService.swift''),
      (''V5/Views/V5MainView.swift'', ''V5MainView.swift'')]"

text \<open>
  \<^verbatim>\<open>uuid.uuid4()\<close> takes sixteen random bytes, read as a 128-bit number, and sets the
  variant and version bits; \<^verbatim>\<open>.hex\<close> is the number in 32 lower-case hexadecimal digits.
  \<open>generate_uuid\<close> keeps the first 24 digits, in upper case. Its argument is the random
  number.
\<close>

definition uuid4 :: "128 word \<Rightarrow> 128 word" where
  "uuid4 r =
     (((r AND NOT (push_bit 48 0xC000)) OR push_bit 48 0x8000)
        AND NOT (push_bit 64 0xF000)) OR push_bit 76 4"

definition hex_char :: "nat \<Rightarrow> char" where
  "hex_char d = (if d < 10 then char_of (48 + d) else char_of (87 + d))"

definition uuid_hex :: "128 word \<Rightarrow> string" where
  "uuid_hex u = map (\<lambda>i. hex_char (unat (drop_bit (4 * (31 - i)) u AND 15))) [0..<32]"

definition generate_uuid :: "128 word \<Rightarrow> string" where
  "generate_uuid r = py_upper (take 24 (uuid_hex (uuid4 r)))"

subsection \<open>The three insertions\<close>

definition pat_file_ref :: pattern where
  "pat_file_ref = [[Lit ''/* End PBXFileReference section */'']]"

definition pat_build_file :: pattern where
  "pat_build_file = [[Lit ''/* End PBXBuildFile section */'']]"

definition pat_sources :: pattern where
  "pat_sources =
     [[Lit ''/* Sources */ = {'', StarNot CHR ''}'', Lit ''files = (''], [StarNot CHR '')'']]"

definition file_ref :: "string \<Rightarrow> string \<Rightarrow> string \<Rightarrow> string" where
  "file_ref file_ref_uuid filename relative_path =
     [CHR 0x09, CHR 0x09] @ file_ref_uuid @ '' /* '' @ filename @
     '' */ = {isa = PBXFileReference; lastKnownFileType = sourcecode.swift; path = '' @
     relative_path @ ''; sourceTree = '' @ [CHR 0x22] @ ''<group>'' @ [CHR 0x22] @ ''; };'' @
     [CHR 0x0A]"

definition build_file :: "string \<Rightarrow> string \<Rightarrow> string \<Rightarrow> string" where
  "build_file build_file_uuid file_ref_uuid filename =
     [CHR 0x09, CHR 0x09] @ build_file_uuid @ '' /* '' @ filename @
     '' in Sources */ = {isa = PBXBuildFile; fileRef = '' @ file_ref_uuid @ '' /* '' @
     filename @ '' */; };'' @ [CHR 0x0A]"

definition sources_ref :: "string \<Rightarrow> string \<Rightarrow> string" where
  "sources_ref build_file_uuid filename =
     [CHR 0x0A, CHR 0x09, CHR 0x09, CHR 0x09, CHR 0x09] @ build_file_uuid @ '' /* '' @
     filename @ '' in Sources */,''"

text \<open>The body of the loop for a file that is on disk and not yet named in the text.\<close>

definition insert_file :: "string \<Rightarrow> string \<Rightarrow> string \<Rightarrow> string \<Rightarrow> string \<Rightarrow> string" where
  "insert_file file_ref_uuid build_file_uuid relative_path filename content =
     (let content = re_sub pat_file_ref
            [Text (file_ref file_ref_uuid filename relative_path), Group 1] content;
          content = re_sub pat_build_file
            [Text (build_file build_file_uuid file_ref_uuid filename), Group 1] content
      in re_sub pat_sources
           [Group 1, Group 2, Text (sources_ref build_file_uuid filename)] content)"

subsection \<open>The loop over the candidate files\<close>

text \<open>
  The variables of the loop: the text of the manifest in memory, the counter
  \<^verbatim>\<open>files_added\<close>, the number of random values drawn so far, and the lines printed.
\<close>

record scan =
  content :: string
  files_added :: nat
  drawn :: nat
  printed :: "string list"

definition visit :: "(string \<Rightarrow> bool) \<Rightarrow> (nat \<Rightarrow> 128 word) \<Rightarrow> string \<times> string \<Rightarrow> scan \<Rightarrow> scan" where
  "visit exists rnd c st =
     (case c of (relative_path, filename) \<Rightarrow>
        let full_path = PROJECT_DIR @ ''/'' @ relative_path in
        if \<not> exists full_path
        then st\<lparr>printed := printed st @ [''SKIP: '' @ filename @ '' not on disk'']\<rparr>
        else if str_in filename (content st)
        then st\<lparr>printed := printed st @ [''OK: '' @ filename @ '' already in project'']\<rparr>
        else
          let file_ref_uuid = generate_uuid (rnd (drawn st));
              build_file_uuid = generate_uuid (rnd (drawn st + 1))
          in \<lparr>content = insert_file file_ref_uuid build_file_uuid relative_path filename (content st),
               files_added = files_added st + 1,
               drawn = drawn st + 2,
               printed = printed st @ [''ADDING: '' @ filename @ ''...'', ''  Added '' @ filename]\<rparr>)"

fun add_files :: "(string \<Rightarrow> bool) \<Rightarrow> (nat \<Rightarrow> 128 word) \<Rightarrow> (string \<times> string) list \<Rightarrow> scan \<Rightarrow> scan" where
  "add_files exists rnd [] st = st"
| "add_files exists rnd (c # cs) st = add_files exists rnd cs (visit exists rnd c st)"

subsection \<open>The file system, the console and the run\<close>

text \<open>
  What the script does to its surroundings. A regular file is the list of its bytes. The
  script opens the manifest in text mode: the bytes are decoded as UTF-8, which fails on
  a byte sequence that is not valid UTF-8, and every \<^verbatim>\<open>\r\n\<close> and every single \<^verbatim>\<open>\r\<close> becomes
  \<^verbatim>\<open>\n\<close>; on writing, the text is encoded and \<^verbatim>\<open>\n\<close> is written as it is. The captured
  output of the build is decoded in the same way. An exception that is not caught ends the
  script, so every function that may raise returns the error as a value. Four causes raise
  here: a manifest or a build output that is not valid UTF-8, a derived-data path that is
  not a directory, and an entry to remove that is a regular file or a symbolic link.
\<close>

datatype error = FileNotFoundError | UnicodeDecodeError | NotADirectoryError | OSError

datatype kind = Directory | Regular | Symlink

datatype derived = Absent | Not_A_Folder | Folder "(string \<times> kind) list"

datatype effect = Copy string string | Write string | Rmtree string | Run string

record world =
  files :: "string \<rightharpoonup> string"
  derived_data :: derived
  console :: "string list"
  effects :: "effect list"

record completed =
  returncode :: int
  stdout :: string
  stderr :: string

text \<open>
  The shell: what running a command gives on a file system, with the bytes the process
  wrote to its two pipes.
\<close>

type_synonym shell = "string \<Rightarrow> (string \<rightharpoonup> string) \<Rightarrow> completed"

text \<open>
  The strict UTF-8 decoder accepts the sequences of RFC 3629: no continuation byte
  without a lead, no overlong form, no surrogate, nothing above U+10FFFF.
\<close>

definition continuation :: "char \<Rightarrow> bool" where
  "continuation c = (128 \<le> (of_char c :: nat) \<and> (of_char c :: nat) \<le> 191)"

fun utf8 :: "string \<Rightarrow> bool" where
  "utf8 [] = True"
| "utf8 (b # bs) =
     (let k = (of_char b :: nat) in
      if k < 128 then utf8 bs
      else if 194 \<le> k \<and> k \<le> 223
      then (case bs of c1 # r \<Rightarrow> continuation c1 \<and> utf8 r | _ \<Rightarrow> False)
      else if 224 \<le> k \<and> k \<le> 239
      then (case bs of
              c1 # c2 # r \<Rightarrow>
                continuation c1 \<and> continuation c2 \<and>
                (if k = 224 then 160 \<le> (of_char c1 :: nat) else True) \<and>
                (if k = 237 then (of_char c1 :: nat) \<le> 159 else True) \<and> utf8 r
            | _ \<Rightarrow> False)
      else if 240 \<le> k \<and> k \<le> 244
      then (case bs of
              c1 # c2 # c3 # r \<Rightarrow>
                continuation c1 \<and> continuation c2 \<and> continuation c3 \<and>
                (if k = 240 then 144 \<le> (of_char c1 :: nat) else True) \<and>
                (if k = 244 then (of_char c1 :: nat) \<le> 143 else True) \<and> utf8 r
            | _ \<Rightarrow> False)
      else False)"

fun universal_newlines :: "string \<Rightarrow> string" where
  "universal_newlines [] = []"
| "universal_newlines [c] = [if c = CHR 0x0D then CHR 0x0A else c]"
| "universal_newlines (c # d # ds) =
     (if c = CHR 0x0D \<and> d = CHR 0x0A then CHR 0x0A # universal_newlines ds
      else (if c = CHR 0x0D then CHR 0x0A else c) # universal_newlines (d # ds))"

definition say :: "string \<Rightarrow> world \<Rightarrow> world" where
  "say line w = w\<lparr>console := console w @ [line]\<rparr>"

definition os_path_exists :: "world \<Rightarrow> string \<Rightarrow> bool" where
  "os_path_exists w path = (files w path \<noteq> None)"

definition read_text :: "string \<Rightarrow> world \<Rightarrow> error + string" where
  "read_text path w =
     (case files w path of
        None \<Rightarrow> Inl FileNotFoundError
      | Some bytes \<Rightarrow> if utf8 bytes then Inr (universal_newlines bytes) else Inl UnicodeDecodeError)"

definition shutil_copy :: "string \<Rightarrow> string \<Rightarrow> world \<Rightarrow> world" where
  "shutil_copy src dst w = w\<lparr>files := (files w)(dst := files w src), effects := effects w @ [Copy src dst]\<rparr>"

definition write_text :: "string \<Rightarrow> string \<Rightarrow> world \<Rightarrow> world" where
  "write_text path text w = w\<lparr>files := (files w)(path \<mapsto> text), effects := effects w @ [Write path]\<rparr>"

definition DERIVED_DATA :: string where
  "DERIVED_DATA = ''~/Library/Developer/Xcode/DerivedData''"

text \<open>
  \<^verbatim>\<open>shutil.rmtree\<close> removes a directory; on a regular file it raises
  \<^verbatim>\<open>NotADirectoryError\<close>, on a symbolic link \<^verbatim>\<open>OSError\<close>.
\<close>

definition rmtree :: "string \<times> kind \<Rightarrow> world \<Rightarrow> error + world" where
  "rmtree entry w =
     (case snd entry of
        Directory \<Rightarrow>
          Inr (w\<lparr>derived_data :=
                   (case derived_data w of
                      Folder items \<Rightarrow> Folder (filter (\<lambda>e. fst e \<noteq> fst entry) items)
                    | d \<Rightarrow> d),
                 effects := effects w @ [Rmtree (DERIVED_DATA @ ''/'' @ fst entry)]\<rparr>)
      | Regular \<Rightarrow> Inl NotADirectoryError
      | Symlink \<Rightarrow> Inl OSError)"

fun clean_items :: "(string \<times> kind) list \<Rightarrow> world \<Rightarrow> error option \<times> world" where
  "clean_items [] w = (None, w)"
| "clean_items (item # items) w =
     (if str_in ''Redi'' (fst item)
      then (case rmtree item w of
              Inl e \<Rightarrow> (Some e, w)
            | Inr w \<Rightarrow> clean_items items (say (''  Removed: '' @ fst item) w))
      else clean_items items w)"

definition clean_derived_data :: "world \<Rightarrow> error option \<times> world" where
  "clean_derived_data w =
     (case derived_data w of
        Absent \<Rightarrow> (None, w)
      | Not_A_Folder \<Rightarrow> (Some NotADirectoryError, w)
      | Folder items \<Rightarrow> clean_items items w)"

definition build_cmd :: string where
  "build_cmd = ''xcodebuild -project '' @ PROJECT_DIR @ ''/'' @ PROJECT_NAME @ ''.xcodeproj -scheme '' @
     PROJECT_NAME @ '' -destination '' @ [CHR 0x27] @ ''platform=iOS Simulator,name=iPhone 16'' @
     [CHR 0x27] @ '' clean build 2>&1''"

definition subprocess_run :: "shell \<Rightarrow> string \<Rightarrow> world \<Rightarrow> (error + completed) \<times> world" where
  "subprocess_run shell cmd w =
     (let raw = shell cmd (files w);
          w = w\<lparr>effects := effects w @ [Run cmd]\<rparr>
      in if utf8 (stdout raw) \<and> utf8 (stderr raw)
         then (Inr \<lparr>returncode = returncode raw, stdout = universal_newlines (stdout raw),
                    stderr = universal_newlines (stderr raw)\<rparr>, w)
         else (Inl UnicodeDecodeError, w))"

text \<open>
  \<open>main\<close> gives how the call \<^verbatim>\<open>main()\<close> ends, with the value returned or the exception
  raised, and the world it leaves. Each element of the console is the text of one
  \<^verbatim>\<open>print\<close>. The last line of the script is \<^verbatim>\<open>exit(main())\<close>: the status of the process is
  the value returned, of which the operating system keeps the low eight bits, and 1
  after an exception.
\<close>

datatype outcome = Returned int | Raised error

definition main :: "(nat \<Rightarrow> 128 word) \<Rightarrow> shell \<Rightarrow> world \<Rightarrow> outcome \<times> world" where
  "main rnd shell w =
     (let w = say (replicate 50 CHR ''='') w;
          w = say ''REDI iOS PROJECT SYNC'' w;
          w = say (replicate 50 CHR ''='') w
      in if \<not> os_path_exists w PBXPROJ_PATH
         then (Returned 1, say (''ERROR: Cannot find '' @ PBXPROJ_PATH) w)
         else
           case read_text PBXPROJ_PATH w of
             Inl e \<Rightarrow> (Raised e, w)
           | Inr text \<Rightarrow>
               let w = shutil_copy PBXPROJ_PATH (PBXPROJ_PATH @ ''.backup'') w;
                   w = say (''Created backup: '' @ PBXPROJ_PATH @ ''.backup'') w;
                   st = add_files (os_path_exists w) rnd V5_FILES
                          \<lparr>content = text, files_added = 0, drawn = 0, printed = []\<rparr>;
                   w = w\<lparr>console := console w @ printed st\<rparr>;
                   w = (if files_added st > 0
                        then say (CHR 0x0A # ''Updated project with '' @ str_nat (files_added st) @ '' files'')
                               (write_text PBXPROJ_PATH (content st) w)
                        else say (CHR 0x0A # ''No files needed adding'') w);
                   w = say (CHR 0x0A # ''Cleaning Xcode caches...'') w
               in case clean_derived_data w of
                    (Some e, w) \<Rightarrow> (Raised e, w)
                  | (None, w) \<Rightarrow>
                      let w = say (CHR 0x0A # ''Building project...'') w
                      in case subprocess_run shell build_cmd w of
                           (Inl e, w) \<Rightarrow> (Raised e, w)
                         | (Inr result, w) \<Rightarrow>
                             let output = stdout result @ stderr result;
                                 lines = split_nl (py_strip output);
                                 w = say (CHR 0x0A # ''Build output (last 30 lines):'') w;
                                 w = w\<lparr>console := console w @ map (\<lambda>line. ''  '' @ line) (last_n 30 lines)\<rparr>;
                                 w = (if returncode result = 0
                                      then say ([CHR 0x0A, CHR 0xE2, CHR 0x9C, CHR 0x85] @ '' BUILD SUCCEEDED'') w
                                      else say ([CHR 0x0A, CHR 0xE2, CHR 0x9D, CHR 0x8C] @ '' BUILD FAILED'') w)
                             in (Returned (returncode result), w))"


subsection \<open>Notions used in the statements\<close>

text \<open>
  The loop as \<open>main\<close> runs it on the text it has read: the backup has just been made, so
  the backup path exists besides the paths of the initial world. \<open>patched\<close> is the file
  system the script leaves when the loop and the write are done. \<open>removals\<close> lists the
  derived-data directories the cleaning deletes before it ends or raises, and
  \<open>clean_error\<close> is the exception it raises, if any. \<open>same_vars\<close> compares two loop states
  up to the lines printed.
\<close>

definition loop_of :: "(nat \<Rightarrow> 128 word) \<Rightarrow> world \<Rightarrow> string \<Rightarrow> scan" where
  "loop_of rnd w text = add_files (\<lambda>p. p = PBXPROJ_PATH @ ''.backup'' \<or> files w p \<noteq> None) rnd V5_FILES
     \<lparr>content = text, files_added = 0, drawn = 0, printed = []\<rparr>"

definition patched :: "(nat \<Rightarrow> 128 word) \<Rightarrow> world \<Rightarrow> string \<Rightarrow> (string \<rightharpoonup> string)" where
  "patched rnd w text =
     (if files_added (loop_of rnd w text) > 0
      then (files w)(PBXPROJ_PATH @ ''.backup'' := files w PBXPROJ_PATH,
                     PBXPROJ_PATH \<mapsto> content (loop_of rnd w text))
      else (files w)(PBXPROJ_PATH @ ''.backup'' := files w PBXPROJ_PATH))"

definition redi_items :: "derived \<Rightarrow> (string \<times> kind) list" where
  "redi_items d = (case d of Folder items \<Rightarrow> filter (\<lambda>e. str_in ''Redi'' (fst e)) items | _ \<Rightarrow> [])"

definition removals :: "derived \<Rightarrow> effect list" where
  "removals d = map (\<lambda>e. Rmtree (DERIVED_DATA @ ''/'' @ fst e))
                    (takeWhile (\<lambda>e. snd e = Directory) (redi_items d))"

definition rmtree_error :: "(string \<times> kind) list \<Rightarrow> error option" where
  "rmtree_error items =
     (case dropWhile (\<lambda>e. snd e = Directory) items of
        [] \<Rightarrow> None
      | e # es \<Rightarrow> Some (if snd e = Regular then NotADirectoryError else OSError))"

definition clean_error :: "derived \<Rightarrow> error option" where
  "clean_error d = (if d = Not_A_Folder then Some NotADirectoryError else rmtree_error (redi_items d))"

text \<open>
  The literal openings of the third pattern; a name that holds neither a slash nor a closing
  parenthesis, which no insertion of the script can split; a text none of the three
  patterns matches; a text on which the loop has nothing left to insert; a loop state at
  the start of the loop. \<open>joined m xs y\<close> is the text made of the pieces \<open>xs\<close>, each followed
  by \<open>m\<close>, and then \<open>y\<close>. \<open>matches_in p s ms y\<close> says that scanning \<open>s\<close> from the left finds the
  matches \<open>ms\<close> of \<open>p\<close> one after the other, each given with the text skipped before it and
  its groups, and that \<open>y\<close> is left after the last one. \<open>fragments\<close> lists the records
  \<open>insert_file\<close> really inserts into a text: each of the three whose pattern matches the
  text its substitution is given.
\<close>

definition same_vars :: "scan \<Rightarrow> scan \<Rightarrow> bool" where
  "same_vars st st' = (content st = content st' \<and> files_added st = files_added st' \<and> drawn st = drawn st')"

definition SOURCES_OPEN :: string where "SOURCES_OPEN = ''/* Sources */ = {''"

definition FILES_OPEN :: string where "FILES_OPEN = ''files = (''"

definition plain_name :: "string \<Rightarrow> bool" where
  "plain_name n = (CHR ''/'' \<notin> set n \<and> CHR '')'' \<notin> set n)"

definition no_match :: "string \<Rightarrow> bool" where
  "no_match s = (re_search pat_file_ref s = None \<and> re_search pat_build_file s = None \<and>
     re_search pat_sources s = None)"

definition settled :: "(string \<Rightarrow> bool) \<Rightarrow> (string \<times> string) list \<Rightarrow> string \<Rightarrow> bool" where
  "settled ex cs s = (no_match s \<or> (\<forall>(rel, name) \<in> set cs. ex (PROJECT_DIR @ ''/'' @ rel) \<longrightarrow> str_in name s))"

definition fresh_scan :: "string \<Rightarrow> scan" where
  "fresh_scan body = \<lparr>content = body, files_added = 0, drawn = 0, printed = []\<rparr>"

definition joined :: "string \<Rightarrow> string list \<Rightarrow> string \<Rightarrow> string" where
  "joined m xs y = foldr (\<lambda>x acc. x @ m @ acc) xs y"

fun matches_in :: "pattern \<Rightarrow> string \<Rightarrow> (string \<times> string list) list \<Rightarrow> string \<Rightarrow> bool" where
  "matches_in p s [] y = (re_search p s = None \<and> y = s)"
| "matches_in p s ((a, gs) # ms) y =
     (case re_search p s of None \<Rightarrow> False
      | Some (a', gs', r) \<Rightarrow> a' = a \<and> gs' = gs \<and> matches_in p r ms y)"

definition fragments :: "string \<Rightarrow> string \<Rightarrow> string \<Rightarrow> string \<Rightarrow> string \<Rightarrow> string list" where
  "fragments file_ref_uuid build_file_uuid relative_path filename s =
     (let s1 = re_sub pat_file_ref [Text (file_ref file_ref_uuid filename relative_path), Group 1] s;
          s2 = re_sub pat_build_file [Text (build_file build_file_uuid file_ref_uuid filename), Group 1] s1
      in (if re_search pat_file_ref s \<noteq> None then [file_ref file_ref_uuid filename relative_path] else []) @
         (if re_search pat_build_file s1 \<noteq> None then [build_file build_file_uuid file_ref_uuid filename] else []) @
         (if re_search pat_sources s2 \<noteq> None then [sources_ref build_file_uuid filename] else []))"


definition all_registered :: world where
  "all_registered =
     \<lparr>files = [PBXPROJ_PATH \<mapsto> ''V5Config.swift V5MainView.swift'',
               ''Redi/V5/Config/V5Config.swift'' \<mapsto> ''import Foundation'',
               ''Redi/V5/Views/V5MainView.swift'' \<mapsto> ''import SwiftUI''],
      derived_data = Folder [(''Redi-abc'', Directory), (''Other-xyz'', Directory)],
      console = [], effects = []\<rparr>"





definition build_failed :: shell where
  "build_failed cmd fs = \<lparr>returncode = 65, stdout = ''error: build failed'', stderr = ''''\<rparr>"




definition with_before :: "string \<Rightarrow> (string \<times> string list) list \<Rightarrow> string \<Rightarrow> string" where
  "with_before x ms z = concat (map (\<lambda>(a, gs). a @ x @ concat gs) ms) @ z"

definition with_after :: "string \<Rightarrow> (string \<times> string list) list \<Rightarrow> string \<Rightarrow> string" where
  "with_after x ms z = concat (map (\<lambda>(a, gs). a @ concat gs @ x) ms) @ z"

fun rests :: "(string \<times> string list) list \<Rightarrow> string \<Rightarrow> string list" where
  "rests [] z = []"
| "rests (m # ms) z = with_before [] ms z # rests ms z"




text \<open>
  A manifest in which each of two Sources blocks holds the end marker of the file
  references before its files list; a manifest with two markers of each kind and two
  Sources blocks.
\<close>

definition nested_blocks :: world where
  "nested_blocks =
     \<lparr>files = [PBXPROJ_PATH \<mapsto>
                 ''/* Sources */ = {/* End PBXFileReference section */files = ();};'' @
                 ''/* Sources */ = {/* End PBXFileReference section */files = ();};'',
               ''Redi/V5/Config/V5Config.swift'' \<mapsto> ''import Foundation''],
      derived_data = Absent, console = [], effects = []\<rparr>"

definition two_targets :: string where
  "two_targets =
     ''B/* End PBXBuildFile section */B/* End PBXBuildFile section */'' @
     ''R/* End PBXFileReference section */R/* End PBXFileReference section */'' @
     ''S/* Sources */ = {files = (A,);};/* Sources */ = {files = ();};''"

subsection \<open>Facts about substitution and about the loop\<close>

lemma str_in_sublist: "str_in n s = sublist n s"
  by (induction s) (auto simp: sublist_Cons_right)

lemma re_sub_none: "re_search p s = None \<Longrightarrow> re_sub p t s = s"
  by (simp add: re_sub.simps)

lemma re_sub_some:
  "re_search p s = Some (a, gs, r) \<Longrightarrow> concat gs \<noteq> [] \<Longrightarrow> re_sub p t s = a @ expand t gs @ re_sub p t r"
  by (subst re_sub.simps) auto

lemma re_match_lit:
  "re_match [[Lit m]] s = (if prefix m s then Some ([m], drop (length m) s) else None)"
  by (simp add: re_match_def)

lemma re_search_lit_none: "m \<noteq> [] \<Longrightarrow> (re_search [[Lit m]] s = None) = (\<not> str_in m s)"
  by (induction s) (auto simp: re_match_lit split: option.splits)

lemma prefix_shorter: "prefix m (u @ v) \<Longrightarrow> length m \<le> length u \<Longrightarrow> prefix m u"
  by (metis prefix_append prefix_length_le prefix_order.antisym prefix_def append_eq_append_conv_if append_take_drop_id)

lemma re_search_lit_at:
  assumes "m \<noteq> []" "\<not> str_in m (x @ butlast m)"
  shows "re_search [[Lit m]] (x @ m @ r) = Some (x, [m], r)"
  using assms(2)
proof (induction x)
  case Nil
  show ?case
  proof (cases "m @ r")
    case Nil with assms(1) show ?thesis by simp
  next
    case (Cons c cs)
    have "re_match [[Lit m]] (m @ r) = Some ([m], r)" by (simp add: re_match_lit)
    with Cons show ?thesis by simp
  qed
next
  case (Cons c x)
  have np: "\<not> prefix m ((c # x) @ butlast m)" and ns: "\<not> str_in m (x @ butlast m)"
    using Cons.prems by auto
  have "\<not> prefix m (c # x @ m @ r)"
  proof
    assume p: "prefix m (c # x @ m @ r)"
    have "c # x @ m @ r = ((c # x) @ butlast m) @ (last m # r)"
      using assms(1) by (simp add: append_butlast_last_id[symmetric] del: append_butlast_last_id)
    moreover have "length m \<le> length ((c # x) @ butlast m)" by simp
    ultimately have "prefix m ((c # x) @ butlast m)" using p prefix_shorter by metis
    with np show False by simp
  qed
  then have "re_match [[Lit m]] (c # x @ m @ r) = None" by (simp add: re_match_lit)
  with Cons.IH[OF ns] show ?case by simp
qed

lemma visit_same_vars: "same_vars st st' \<Longrightarrow> same_vars (visit ex rnd c st) (visit ex rnd c st')"
  by (cases c) (simp add: same_vars_def visit_def Let_def)

lemma add_files_same_vars:
  "same_vars st st' \<Longrightarrow> same_vars (add_files ex rnd cs st) (add_files ex rnd cs st')"
  by (induction cs arbitrary: st st') (simp_all add: visit_same_vars)

lemma add_files_append:
  "add_files ex rnd (xs @ ys) st = add_files ex rnd ys (add_files ex rnd xs st)"
  by (induction xs arbitrary: st) simp_all

lemma visit_absent:
  "\<not> ex (PROJECT_DIR @ ''/'' @ rel) \<Longrightarrow>
   visit ex rnd (rel, name) st = st\<lparr>printed := printed st @ [''SKIP: '' @ name @ '' not on disk'']\<rparr>"
  by (simp add: visit_def)

lemma visit_named:
  "ex (PROJECT_DIR @ ''/'' @ rel) \<Longrightarrow> str_in name (content st) \<Longrightarrow>
   visit ex rnd (rel, name) st = st\<lparr>printed := printed st @ [''OK: '' @ name @ '' already in project'']\<rparr>"
  by (simp add: visit_def)

lemma visit_insert:
  "ex (PROJECT_DIR @ ''/'' @ rel) \<Longrightarrow> \<not> str_in name (content st) \<Longrightarrow>
   visit ex rnd (rel, name) st =
     \<lparr>content = insert_file (generate_uuid (rnd (drawn st))) (generate_uuid (rnd (drawn st + 1))) rel name (content st),
      files_added = files_added st + 1, drawn = drawn st + 2,
      printed = printed st @ [''ADDING: '' @ name @ ''...'', ''  Added '' @ name]\<rparr>"
  by (simp add: visit_def Let_def)

lemma visit_printed: "prefix (printed st) (printed (visit ex rnd c st))"
  by (cases c) (simp add: visit_def Let_def)

lemma add_files_printed: "prefix (printed st) (printed (add_files ex rnd cs st))"
proof (induction cs arbitrary: st)
  case Nil
  show ?case by simp
next
  case (Cons c cs)
  have "prefix (printed st) (printed (visit ex rnd c st))" by (rule visit_printed)
  also have "prefix \<dots> (printed (add_files ex rnd cs (visit ex rnd c st)))" by (rule Cons.IH)
  finally show ?case by simp
qed

lemma add_files_skip_line:
  assumes "(rel, name) \<in> set cs" "\<not> ex (PROJECT_DIR @ ''/'' @ rel)"
  shows "''SKIP: '' @ name @ '' not on disk'' \<in> set (printed (add_files ex rnd cs st))"
  using assms(1)
proof (induction cs arbitrary: st)
  case Nil
  then show ?case by simp
next
  case (Cons c cs)
  show ?case
  proof (cases "c = (rel, name)")
    case True
    then have "''SKIP: '' @ name @ '' not on disk'' \<in> set (printed (visit ex rnd c st))"
      using assms(2) by (simp add: visit_absent)
    moreover have "set (printed (visit ex rnd c st)) \<subseteq> set (printed (add_files ex rnd cs (visit ex rnd c st)))"
      using add_files_printed by (rule set_mono_prefix)
    ultimately show ?thesis by auto
  next
    case False
    with Cons.prems have "(rel, name) \<in> set cs" by simp
    then show ?thesis using Cons.IH by simp
  qed
qed

lemma add_files_skip_all:
  assumes "\<forall>(rel, name) \<in> set cs. \<not> ex (PROJECT_DIR @ ''/'' @ rel) \<or> str_in name (content st)"
  shows "same_vars (add_files ex rnd cs st) st"
  using assms
proof (induction cs arbitrary: st)
  case Nil
  show ?case by (simp add: same_vars_def)
next
  case (Cons c cs)
  obtain rel name where c: "c = (rel, name)" by (cases c)
  from Cons.prems c have "\<not> ex (PROJECT_DIR @ ''/'' @ rel) \<or> str_in name (content st)" by simp
  then have v: "same_vars (visit ex rnd c st) st"
    unfolding c by (cases "ex (PROJECT_DIR @ ''/'' @ rel)") (auto simp: visit_absent visit_named same_vars_def)
  then have "\<forall>(rel, name) \<in> set cs. \<not> ex (PROJECT_DIR @ ''/'' @ rel) \<or> str_in name (content (visit ex rnd c st))"
    using Cons.prems by (simp add: same_vars_def)
  from Cons.IH[OF this] v show ?case by (simp add: same_vars_def)
qed

lemma V5_not_backup:
  "(rel, name) \<in> set V5_FILES \<Longrightarrow> PROJECT_DIR @ ''/'' @ rel \<noteq> PBXPROJ_PATH @ ''.backup''"
  by (auto simp: V5_FILES_def PROJECT_DIR_def PBXPROJ_PATH_def PROJECT_NAME_def)

lemma greedy_found:
  "greedy k s n = Some (ps, r) \<Longrightarrow> \<exists>j qs. j \<le> n \<and> ps = take j s # qs \<and> k (drop j s) = Some (qs, r)"
proof (induction n)
  case 0
  then show ?case by (auto split: option.splits)
next
  case (Suc n)
  show ?case
  proof (cases "k (drop (Suc n) s)")
    case None
    with Suc.prems have "greedy k s n = Some (ps, r)" by simp
    from Suc.IH[OF this] obtain j qs where "j \<le> n" "ps = take j s # qs" "k (drop j s) = Some (qs, r)"
      by blast
    then have "j \<le> Suc n \<and> ps = take j s # qs \<and> k (drop j s) = Some (qs, r)" by simp
    then show ?thesis by blast
  next
    case (Some m)
    with Suc.prems show ?thesis by (cases m) auto
  qed
qed

lemma greedy_last: "greedy (match_items []) s n = Some ([take n s], drop n s)"
  by (cases n) simp_all

lemma take_run_free: "j \<le> length (takeWhile (\<lambda>x. x \<noteq> c) s) \<Longrightarrow> c \<notin> set (take j s)"
proof
  assume j: "j \<le> length (takeWhile (\<lambda>x. x \<noteq> c) s)" and "c \<in> set (take j s)"
  have "take j s = take j (takeWhile (\<lambda>x. x \<noteq> c) s @ dropWhile (\<lambda>x. x \<noteq> c) s)" by simp
  also have "\<dots> = take j (takeWhile (\<lambda>x. x \<noteq> c) s)" using j by (simp del: takeWhile_dropWhile_id)
  finally have "set (take j s) \<subseteq> set (takeWhile (\<lambda>x. x \<noteq> c) s)" by (metis set_take_subset)
  with \<open>c \<in> set (take j s)\<close> show False by (auto dest: set_takeWhileD)
qed

lemma re_match_sources:
  assumes "re_match pat_sources s = Some (gs, r)"
  shows "\<exists>u g. gs = [SOURCES_OPEN @ u @ FILES_OPEN, g] \<and> s = SOURCES_OPEN @ u @ FILES_OPEN @ g @ r \<and>
     CHR ''}'' \<notin> set u \<and> CHR '')'' \<notin> set g \<and> (r = [] \<or> hd r = CHR '')'')"
proof -
  let ?A = "''/* Sources */ = {''" and ?F = "''files = (''"
  from assms obtain ps where m: "match_items [Lit ?A, StarNot CHR ''}'', Lit ?F, StarNot CHR '')''] s = Some (ps, r)"
    and gs: "gs = regroup pat_sources ps"
    by (auto simp: re_match_def pat_sources_def split: option.splits)
  from m obtain qs where pA: "prefix ?A s"
    and m2: "match_items [StarNot CHR ''}'', Lit ?F, StarNot CHR '')''] (drop (length ?A) s) = Some (qs, r)"
    and ps: "ps = ?A # qs"
    by (auto split: if_splits option.splits)
  let ?s1 = "drop (length ?A) s"
  from m2 have "greedy (match_items [Lit ?F, StarNot CHR '')'']) ?s1 (length (takeWhile (\<lambda>x. x \<noteq> CHR ''}'') ?s1)) = Some (qs, r)"
    by simp
  from greedy_found[OF this] obtain j qs' where j: "j \<le> length (takeWhile (\<lambda>x. x \<noteq> CHR ''}'') ?s1)"
    and qs: "qs = take j ?s1 # qs'" and m3: "match_items [Lit ?F, StarNot CHR '')''] (drop j ?s1) = Some (qs', r)"
    by blast
  let ?s2 = "drop j ?s1"
  from m3 obtain qs'' where pF: "prefix ?F ?s2"
    and m4: "match_items [StarNot CHR '')''] (drop (length ?F) ?s2) = Some (qs'', r)" and qs': "qs' = ?F # qs''"
    by (auto split: if_splits option.splits)
  let ?s3 = "drop (length ?F) ?s2"
  let ?n = "length (takeWhile (\<lambda>x. x \<noteq> CHR '')'') ?s3)"
  from m4 have "greedy (match_items []) ?s3 ?n = Some (qs'', r)" by simp
  then have qs'': "qs'' = [take ?n ?s3]" and r: "r = drop ?n ?s3" by (simp_all add: greedy_last)
  have tk: "take ?n ?s3 = takeWhile (\<lambda>x. x \<noteq> CHR '')'') ?s3"
    by (metis append_eq_conv_conj takeWhile_dropWhile_id)
  have dr: "drop ?n ?s3 = dropWhile (\<lambda>x. x \<noteq> CHR '')'') ?s3"
    by (metis append_eq_conv_conj takeWhile_dropWhile_id)
  let ?u = "take j ?s1" and ?g = "take ?n ?s3"
  have pieces: "ps = [?A, ?u, ?F, ?g]" using ps qs qs' qs'' by simp
  have "gs = [?A @ ?u @ ?F, ?g]" unfolding gs pieces by (simp add: pat_sources_def)
  moreover have "s = ?A @ ?u @ ?F @ ?g @ r"
    using match_items_split[OF m] pieces by simp
  moreover have "CHR ''}'' \<notin> set ?u" using j by (rule take_run_free)
  moreover have "CHR '')'' \<notin> set ?g" unfolding tk by (auto dest: set_takeWhileD)
  moreover have "r = [] \<or> hd r = CHR '')''" unfolding r dr using hd_dropWhile[of "\<lambda>x. x \<noteq> CHR '')''" ?s3] by auto
  ultimately show ?thesis unfolding SOURCES_OPEN_def FILES_OPEN_def by blast
qed

lemma re_search_match: "re_search p s = Some (a, gs, r) \<Longrightarrow> re_match p (concat gs @ r) = Some (gs, r)"
proof (induction s arbitrary: a)
  case Nil
  then have m: "re_match p [] = Some (gs, r)" by (auto split: option.splits)
  then have "[] = concat gs @ r" by (rule re_match_split)
  then have "concat gs @ r = []" by (rule sym)
  with m show ?case by (simp only:)
next
  case (Cons c cs)
  show ?case
  proof (cases "re_match p (c # cs)")
    case None
    with Cons.prems obtain a' where "re_search p cs = Some (a', gs, r)" by (auto split: option.splits)
    then show ?thesis by (rule Cons.IH)
  next
    case (Some m)
    with Cons.prems have m: "m = (gs, r)" by (cases m) auto
    with Some have "c # cs = concat gs @ r" by (auto dest: re_match_split)
    with Some m show ?thesis by simp
  qed
qed

lemma sublist_mid: "sublist n m \<Longrightarrow> sublist n (p @ m @ q)"
proof -
  assume "sublist n m"
  then obtain a b where "m = a @ n @ b" by (auto simp: sublist_def)
  then have "p @ m @ q = (p @ a) @ n @ (b @ q)" by simp
  then show ?thesis unfolding sublist_def by blast
qed

lemma sublist_split_hd:
  assumes "sublist n (u @ v)" "v \<noteq> []" "hd v \<notin> set n"
  shows "sublist n u \<or> sublist n v"
proof -
  from assms(1) consider "sublist n u" | "sublist n v"
    | n1 n2 where "n = n1 @ n2" "suffix n1 u" "prefix n2 v"
    by (auto simp: sublist_append)
  then show ?thesis
  proof cases
    case 3
    show ?thesis
    proof (cases n2)
      case Nil
      with 3 show ?thesis by auto
    next
      case (Cons c cs)
      with 3(3) assms(2) have "hd v = c" by (cases v) auto
      with 3(1) Cons assms(3) show ?thesis by simp
    qed
  qed auto
qed

lemma sublist_split_last:
  assumes "sublist n (u @ v)" "u \<noteq> []" "last u \<notin> set n"
  shows "sublist n u \<or> sublist n v"
proof -
  from assms(1) consider "sublist n u" | "sublist n v"
    | n1 n2 where "n = n1 @ n2" "suffix n1 u" "prefix n2 v"
    by (auto simp: sublist_append)
  then show ?thesis
  proof cases
    case 3
    show ?thesis
    proof (cases "n1 = []")
      case True
      with 3 show ?thesis by auto
    next
      case False
      from 3(2) obtain w where "u = w @ n1" by (auto simp: suffix_def)
      with False have "last u = last n1" by simp
      with False have "last u \<in> set n1" by simp
      with 3(1) assms(3) show ?thesis by simp
    qed
  qed auto
qed

lemma re_sub_keeps:
  assumes ok: "\<And>s a gs r. re_search p s = Some (a, gs, r) \<Longrightarrow>
      concat gs \<noteq> [] \<and> hd (concat gs) \<notin> set n \<and>
      (last (concat gs) \<notin> set n \<or> r = [] \<or> hd r \<notin> set n) \<and>
      (\<exists>x y. expand t gs = x @ concat gs @ y)"
  shows "sublist n s \<Longrightarrow> sublist n (re_sub p t s)"
proof (induction "length s" arbitrary: s rule: less_induct)
  case less
  show ?case
  proof (cases "re_search p s")
    case None
    with less.prems show ?thesis by (simp add: re_sub_none)
  next
    case (Some m)
    obtain a gs r where m: "m = (a, gs, r)" by (cases m)
    with Some have f: "re_search p s = Some (a, gs, r)" by simp
    let ?m = "concat gs"
    from ok[OF f] obtain x y where ne: "?m \<noteq> []" and h: "hd ?m \<notin> set n"
      and e: "last ?m \<notin> set n \<or> r = [] \<or> hd r \<notin> set n" and t: "expand t gs = x @ ?m @ y"
      by blast
    have s: "s = a @ ?m @ r" using f by (rule re_search_split)
    have res: "re_sub p t s = a @ (x @ ?m @ y) @ re_sub p t r"
      using re_sub_some[OF f ne] t by simp
    have "length r < length s" using s ne by simp
    note IH = less.hyps[OF this]
    from less.prems s have "sublist n (a @ (?m @ r))" by simp
    then have "sublist n a \<or> sublist n (?m @ r)"
      by (rule sublist_split_hd) (use ne h in auto)
    then consider "sublist n a" | "sublist n ?m" | "sublist n r"
    proof
      assume "sublist n a" then show ?thesis using that by blast
    next
      assume mr: "sublist n (?m @ r)"
      show ?thesis
      proof (cases "r = []")
        case True
        with mr that show ?thesis by simp
      next
        case False
        with e have "last ?m \<notin> set n \<or> hd r \<notin> set n" by simp
        then have "sublist n ?m \<or> sublist n r"
          using mr ne False sublist_split_last sublist_split_hd by blast
        with that show ?thesis by blast
      qed
    qed
    then show ?thesis
    proof cases
      case 1
      then have "sublist n ([] @ a @ ((x @ ?m @ y) @ re_sub p t r))" by (rule sublist_mid)
      then show ?thesis unfolding res by simp
    next
      case 2
      then have "sublist n ((a @ x) @ ?m @ (y @ re_sub p t r))" by (rule sublist_mid)
      then show ?thesis unfolding res by simp
    next
      case 3
      then have "sublist n (re_sub p t r)" by (rule IH)
      then have "sublist n ((a @ x @ ?m @ y) @ re_sub p t r @ [])" by (rule sublist_mid)
      then show ?thesis unfolding res by simp
    qed
  qed
qed

lemma re_search_lit_some:
  assumes "re_search [[Lit m]] s = Some (a, gs, r)"
  shows "gs = [m] \<and> s = a @ m @ r"
proof -
  from assms have "re_match [[Lit m]] (concat gs @ r) = Some (gs, r)" by (rule re_search_match)
  then have "gs = [m]" by (auto simp: re_match_lit split: if_splits)
  with re_search_split[OF assms] show ?thesis by simp
qed

lemma re_search_sources_some:
  assumes "re_search pat_sources s = Some (a, gs, r)"
  shows "\<exists>u g. gs = [SOURCES_OPEN @ u @ FILES_OPEN, g] \<and> s = a @ SOURCES_OPEN @ u @ FILES_OPEN @ g @ r \<and>
     CHR ''}'' \<notin> set u \<and> CHR '')'' \<notin> set g \<and> (r = [] \<or> hd r = CHR '')'')"
proof -
  from assms have "re_match pat_sources (concat gs @ r) = Some (gs, r)" by (rule re_search_match)
  from re_match_sources[OF this] obtain u g where g: "gs = [SOURCES_OPEN @ u @ FILES_OPEN, g]"
    and p: "CHR ''}'' \<notin> set u" "CHR '')'' \<notin> set g" "r = [] \<or> hd r = CHR '')''"
    by blast
  from re_search_split[OF assms] g have "s = a @ SOURCES_OPEN @ u @ FILES_OPEN @ g @ r" by simp
  with g p show ?thesis by blast
qed

lemma keeps_file_ref:
  assumes "plain_name n" "sublist n s"
  shows "sublist n (re_sub pat_file_ref [Text x, Group 1] s)"
proof (rule re_sub_keeps[OF _ assms(2)])
  fix s a gs r
  assume "re_search pat_file_ref s = Some (a, gs, r)"
  then have gs: "gs = [''/* End PBXFileReference section */'']"
    unfolding pat_file_ref_def by (auto dest: re_search_lit_some)
  have "expand [Text x, Group 1] gs = x @ concat gs @ []" unfolding gs by simp
  then have "\<exists>x' y. expand [Text x, Group 1] gs = x' @ concat gs @ y" by blast
  moreover have "concat gs \<noteq> []" "hd (concat gs) \<notin> set n" "last (concat gs) \<notin> set n"
    using assms(1) unfolding gs plain_name_def by simp_all
  ultimately show "concat gs \<noteq> [] \<and> hd (concat gs) \<notin> set n \<and>
      (last (concat gs) \<notin> set n \<or> r = [] \<or> hd r \<notin> set n) \<and>
      (\<exists>x' y. expand [Text x, Group 1] gs = x' @ concat gs @ y)" by blast
qed

lemma keeps_build_file:
  assumes "plain_name n" "sublist n s"
  shows "sublist n (re_sub pat_build_file [Text x, Group 1] s)"
proof (rule re_sub_keeps[OF _ assms(2)])
  fix s a gs r
  assume "re_search pat_build_file s = Some (a, gs, r)"
  then have gs: "gs = [''/* End PBXBuildFile section */'']"
    unfolding pat_build_file_def by (auto dest: re_search_lit_some)
  have "expand [Text x, Group 1] gs = x @ concat gs @ []" unfolding gs by simp
  then have "\<exists>x' y. expand [Text x, Group 1] gs = x' @ concat gs @ y" by blast
  moreover have "concat gs \<noteq> []" "hd (concat gs) \<notin> set n" "last (concat gs) \<notin> set n"
    using assms(1) unfolding gs plain_name_def by simp_all
  ultimately show "concat gs \<noteq> [] \<and> hd (concat gs) \<notin> set n \<and>
      (last (concat gs) \<notin> set n \<or> r = [] \<or> hd r \<notin> set n) \<and>
      (\<exists>x' y. expand [Text x, Group 1] gs = x' @ concat gs @ y)" by blast
qed

lemma keeps_sources:
  assumes "plain_name n" "sublist n s"
  shows "sublist n (re_sub pat_sources [Group 1, Group 2, Text y] s)"
proof (rule re_sub_keeps[OF _ assms(2)])
  fix s a gs r
  assume "re_search pat_sources s = Some (a, gs, r)"
  from re_search_sources_some[OF this] obtain u g where gs: "gs = [SOURCES_OPEN @ u @ FILES_OPEN, g]"
    and r: "r = [] \<or> hd r = CHR '')''" by blast
  have "expand [Group 1, Group 2, Text y] gs = [] @ concat gs @ y" unfolding gs by simp
  then have "\<exists>x' y'. expand [Group 1, Group 2, Text y] gs = x' @ concat gs @ y'" by blast
  moreover have "concat gs \<noteq> []" "hd (concat gs) \<notin> set n"
    using assms(1) unfolding gs plain_name_def SOURCES_OPEN_def by simp_all
  moreover have "r = [] \<or> hd r \<notin> set n" using r assms(1) unfolding plain_name_def by auto
  ultimately show "concat gs \<noteq> [] \<and> hd (concat gs) \<notin> set n \<and>
      (last (concat gs) \<notin> set n \<or> r = [] \<or> hd r \<notin> set n) \<and>
      (\<exists>x' y'. expand [Group 1, Group 2, Text y] gs = x' @ concat gs @ y')" by blast
qed

lemma keeps_insert_file:
  "plain_name n \<Longrightarrow> sublist n s \<Longrightarrow> sublist n (insert_file fr bf rel name s)"
  unfolding insert_file_def Let_def by (intro keeps_sources keeps_build_file keeps_file_ref)

lemma insert_file_no_match: "no_match s \<Longrightarrow> insert_file fr bf rel name s = s"
  by (simp add: no_match_def insert_file_def Let_def re_sub_none)

lemma sub_contains_text:
  assumes "re_search p s \<noteq> None" "\<And>a gs r. re_search p s = Some (a, gs, r) \<Longrightarrow> concat gs \<noteq> []"
    "Text x \<in> set t"
  shows "sublist x (re_sub p t s)"
proof -
  from assms(1) obtain a gs r where f: "re_search p s = Some (a, gs, r)" by (cases "re_search p s") auto
  have ex: "sublist x (expand t gs)" using assms(3)
  proof (induction t)
    case Nil then show ?case by simp
  next
    case (Cons i t)
    show ?case
    proof (cases "i = Text x")
      case True
      then show ?thesis by simp
    next
      case False
      with Cons have "sublist x (expand t gs)" by simp
      then have "sublist x (u @ expand t gs @ [])" for u by (rule sublist_mid)
      then show ?thesis by (cases i) simp_all
    qed
  qed
  have "re_sub p t s = a @ expand t gs @ re_sub p t r" using f assms(2) by (simp add: re_sub_some)
  with sublist_mid[OF ex] show ?thesis by simp
qed

lemma name_in_file_ref: "sublist name (file_ref fr name rel)"
proof -
  have "\<exists>p q. file_ref fr name rel = p @ name @ q"
    unfolding file_ref_def by (metis append.assoc)
  then show ?thesis by (simp add: sublist_def)
qed

lemma name_in_build_file: "sublist name (build_file bf fr name)"
proof -
  have "\<exists>p q. build_file bf fr name = p @ name @ q"
    unfolding build_file_def by (metis append.assoc)
  then show ?thesis by (simp add: sublist_def)
qed

lemma name_in_sources_ref: "sublist name (sources_ref bf name)"
proof -
  have "\<exists>p q. sources_ref bf name = p @ name @ q"
    unfolding sources_ref_def by (metis append.assoc)
  then show ?thesis by (simp add: sublist_def)
qed

lemma sublist_trans: "sublist a b \<Longrightarrow> sublist b c \<Longrightarrow> sublist a c"
proof -
  assume "sublist a b" "sublist b c"
  then obtain p q where "c = p @ b @ q" by (auto simp: sublist_def)
  with \<open>sublist a b\<close> show ?thesis by (simp add: sublist_mid)
qed

lemma lit_match_nonempty:
  "m \<noteq> [] \<Longrightarrow> re_search [[Lit m]] s = Some (a, gs, r) \<Longrightarrow> concat gs \<noteq> []"
  by (auto dest: re_search_lit_some)

lemma sources_match_nonempty: "re_search pat_sources s = Some (a, gs, r) \<Longrightarrow> concat gs \<noteq> []"
  by (auto dest!: re_search_sources_some simp: SOURCES_OPEN_def)

lemma insert_file_names:
  assumes "\<not> no_match s" "plain_name name"
  shows "sublist name (insert_file fr bf rel name s)"
proof -
  let ?t1 = "[Text (file_ref fr name rel), Group 1]"
  let ?t2 = "[Text (build_file bf fr name), Group 1]"
  let ?t3 = "[Group 1, Group 2, Text (sources_ref bf name)]"
  let ?s1 = "re_sub pat_file_ref ?t1 s"
  let ?s2 = "re_sub pat_build_file ?t2 ?s1"
  have res: "insert_file fr bf rel name s = re_sub pat_sources ?t3 ?s2"
    by (simp only: insert_file_def Let_def)
  have some: "re_search pat_file_ref s \<noteq> None \<or> re_search pat_build_file s \<noteq> None \<or>
     re_search pat_sources s \<noteq> None"
    using assms(1) unfolding no_match_def by simp
  have "(re_search pat_file_ref s \<noteq> None) \<or>
     (re_search pat_file_ref s = None \<and> re_search pat_build_file s \<noteq> None) \<or>
     (re_search pat_file_ref s = None \<and> re_search pat_build_file s = None \<and> re_search pat_sources s \<noteq> None)"
    using some by (cases "re_search pat_file_ref s = None"; cases "re_search pat_build_file s = None") simp_all
  then consider (a) "re_search pat_file_ref s \<noteq> None"
    | (b) "re_search pat_file_ref s = None" "re_search pat_build_file s \<noteq> None"
    | (c) "re_search pat_file_ref s = None" "re_search pat_build_file s = None" "re_search pat_sources s \<noteq> None"
    by (elim disjE conjE)
  then show ?thesis
  proof cases
    case a
    have "sublist (file_ref fr name rel) ?s1"
      by (rule sub_contains_text[OF a]) (auto simp: pat_file_ref_def dest: lit_match_nonempty[rotated])
    with name_in_file_ref have "sublist name ?s1" by (rule sublist_trans)
    then have "sublist name ?s2" by (rule keeps_build_file[OF assms(2)])
    then show ?thesis unfolding res by (rule keeps_sources[OF assms(2)])
  next
    case b
    have s1: "?s1 = s" using b(1) by (rule re_sub_none)
    have "sublist (build_file bf fr name) (re_sub pat_build_file ?t2 s)"
      by (rule sub_contains_text[OF b(2)]) (auto simp: pat_build_file_def dest: lit_match_nonempty[rotated])
    with name_in_build_file have "sublist name ?s2" unfolding s1 by (rule sublist_trans)
    then show ?thesis unfolding res by (rule keeps_sources[OF assms(2)])
  next
    case c
    have s1: "?s1 = s" using c(1) by (rule re_sub_none)
    have s2: "?s2 = s" unfolding s1 using c(2) by (rule re_sub_none)
    have "sublist (sources_ref bf name) (re_sub pat_sources ?t3 s)"
      by (rule sub_contains_text[OF c(3)]) (auto dest: sources_match_nonempty)
    with name_in_sources_ref show ?thesis unfolding res s2 by (rule sublist_trans)
  qed
qed

lemma visit_content_cases:
  "content (visit ex rnd (rel, name) st) = content st \<or>
   (ex (PROJECT_DIR @ ''/'' @ rel) \<and> \<not> str_in name (content st) \<and>
    content (visit ex rnd (rel, name) st) =
      insert_file (generate_uuid (rnd (drawn st))) (generate_uuid (rnd (drawn st + 1))) rel name (content st))"
  by (simp add: visit_def Let_def)

lemma visit_keeps:
  "plain_name n \<Longrightarrow> sublist n (content st) \<Longrightarrow> sublist n (content (visit ex rnd c st))"
  by (cases c) (use visit_content_cases keeps_insert_file in metis)

lemma add_files_keeps:
  "plain_name n \<Longrightarrow> sublist n (content st) \<Longrightarrow> sublist n (content (add_files ex rnd cs st))"
  by (induction cs arbitrary: st) (simp_all add: visit_keeps)

lemma visit_no_match: "no_match (content st) \<Longrightarrow> content (visit ex rnd c st) = content st"
  by (cases c) (use visit_content_cases insert_file_no_match in metis)

lemma add_files_no_match: "no_match (content st) \<Longrightarrow> content (add_files ex rnd cs st) = content st"
  by (induction cs arbitrary: st) (simp_all add: visit_no_match)

lemma add_files_settles:
  assumes "\<forall>(rel, name) \<in> set cs. plain_name name"
  shows "settled ex cs (content (add_files ex rnd cs st))"
  using assms
proof (induction cs arbitrary: st)
  case Nil
  show ?case by (simp add: settled_def)
next
  case (Cons c cs)
  obtain rel name where c: "c = (rel, name)" by (cases c)
  let ?st = "visit ex rnd c st"
  let ?s = "content (add_files ex rnd cs ?st)"
  from Cons.prems have pn: "plain_name name" and rest: "\<forall>(rel, name) \<in> set cs. plain_name name"
    by (simp_all add: c)
  have IH: "settled ex cs ?s" using rest by (rule Cons.IH)
  have "no_match ?s \<or> (ex (PROJECT_DIR @ ''/'' @ rel) \<longrightarrow> str_in name ?s)"
  proof (cases "ex (PROJECT_DIR @ ''/'' @ rel)")
    case False
    then show ?thesis by simp
  next
    case True
    show ?thesis
    proof (cases "str_in name (content st)")
      case named: True
      then have "content ?st = content st" unfolding c using True by (simp add: visit_named)
      with named have "sublist name (content ?st)" by (simp add: str_in_sublist)
      then have "sublist name ?s" by (rule add_files_keeps[OF pn])
      then show ?thesis by (simp add: str_in_sublist)
    next
      case False
      then have v: "content ?st = insert_file (generate_uuid (rnd (drawn st))) (generate_uuid (rnd (drawn st + 1))) rel name (content st)"
        unfolding c using True by (simp add: visit_insert)
      show ?thesis
      proof (cases "no_match (content st)")
        case nm: True
        then have "content ?st = content st" unfolding v by (rule insert_file_no_match)
        with nm have "no_match (content ?st)" by simp
        then have "?s = content ?st" by (rule add_files_no_match)
        with \<open>no_match (content ?st)\<close> show ?thesis by simp
      next
        case False
        then have "sublist name (content ?st)" unfolding v using pn by (rule insert_file_names)
        then have "sublist name ?s" by (rule add_files_keeps[OF pn])
        then show ?thesis by (simp add: str_in_sublist)
      qed
    qed
  qed
  with IH show ?case unfolding settled_def c by auto
qed

lemma add_files_settled:
  assumes "settled ex cs (content st)"
  shows "content (add_files ex rnd cs st) = content st"
proof (cases "no_match (content st)")
  case True
  then show ?thesis by (rule add_files_no_match)
next
  case False
  with assms have "\<forall>(rel, name) \<in> set cs. \<not> ex (PROJECT_DIR @ ''/'' @ rel) \<or> str_in name (content st)"
    unfolding settled_def by auto
  then have "same_vars (add_files ex rnd cs st) st" by (rule add_files_skip_all)
  then show ?thesis by (simp add: same_vars_def)
qed

lemma visit_unchanged: "files_added (visit ex rnd c st) = files_added st \<Longrightarrow> content (visit ex rnd c st) = content st"
  by (cases c) (simp add: visit_def Let_def split: if_splits)

lemma visit_mono: "files_added st \<le> files_added (visit ex rnd c st)"
  by (cases c) (simp add: visit_def Let_def)

lemma add_files_mono: "files_added st \<le> files_added (add_files ex rnd cs st)"
proof (induction cs arbitrary: st)
  case Nil show ?case by simp
next
  case (Cons c cs)
  have "files_added st \<le> files_added (visit ex rnd c st)" by (rule visit_mono)
  also have "\<dots> \<le> files_added (add_files ex rnd cs (visit ex rnd c st))" by (rule Cons.IH)
  finally show ?case by simp
qed

lemma add_files_unchanged:
  "files_added (add_files ex rnd cs st) = files_added st \<Longrightarrow> content (add_files ex rnd cs st) = content st"
proof (induction cs arbitrary: st)
  case Nil show ?case by simp
next
  case (Cons c cs)
  let ?st = "visit ex rnd c st"
  have "files_added st \<le> files_added ?st" by (rule visit_mono)
  moreover have "files_added ?st \<le> files_added (add_files ex rnd cs ?st)" by (rule add_files_mono)
  ultimately have 1: "files_added ?st = files_added st" and 2: "files_added (add_files ex rnd cs ?st) = files_added ?st"
    using Cons.prems by simp_all
  from Cons.IH[OF 2] visit_unchanged[OF 1] show ?case by simp
qed

lemma V5_plain: "\<forall>(rel, name) \<in> set V5_FILES. plain_name name"
  by (simp add: V5_FILES_def plain_name_def)

lemma added_positive:
  assumes "(rel, name) \<in> set cs" "ex (PROJECT_DIR @ ''/'' @ rel)" "\<not> str_in name (content st)"
  shows "files_added st < files_added (add_files ex rnd cs st)"
  using assms(1,3)
proof (induction cs arbitrary: st)
  case Nil
  then show ?case by simp
next
  case (Cons c cs)
  let ?st = "visit ex rnd c st"
  have mono: "files_added ?st \<le> files_added (add_files ex rnd cs ?st)" by (rule add_files_mono)
  show ?case
  proof (cases "files_added ?st = files_added st")
    case False
    with visit_mono[of st ex rnd c] have "files_added st < files_added ?st" by simp
    with mono show ?thesis by simp
  next
    case True
    then have same: "content ?st = content st" by (rule visit_unchanged)
    have "c \<noteq> (rel, name)"
    proof
      assume "c = (rel, name)"
      then have "files_added ?st = files_added st + 1"
        using assms(2) Cons.prems(2) by (simp add: visit_insert)
      with True show False by simp
    qed
    with Cons.prems(1) have "(rel, name) \<in> set cs" by simp
    moreover have "\<not> str_in name (content ?st)" using same Cons.prems(2) by simp
    ultimately have "files_added ?st < files_added (add_files ex rnd cs ?st)" by (rule Cons.IH)
    with True show ?thesis by simp
  qed
qed

lemma sources_needs_open:
  assumes "re_search pat_sources s \<noteq> None"
  shows "str_in ''/* Sources */ = {'' s \<and> str_in ''files = ('' s"
proof -
  from assms obtain a gs r where "re_search pat_sources s = Some (a, gs, r)"
    by (cases "re_search pat_sources s") auto
  from re_search_sources_some[OF this] obtain u g where
    s: "s = a @ SOURCES_OPEN @ u @ FILES_OPEN @ g @ r" by blast
  have "sublist SOURCES_OPEN s" unfolding s by simp
  moreover have "s = (a @ SOURCES_OPEN @ u) @ FILES_OPEN @ (g @ r)" unfolding s by simp
  then have "sublist FILES_OPEN s" by (metis sublist_appendI)
  ultimately show ?thesis by (simp add: str_in_sublist SOURCES_OPEN_def FILES_OPEN_def)
qed

lemma V5_not_manifest:
  "(rel, name) \<in> set V5_FILES \<Longrightarrow> PROJECT_DIR @ ''/'' @ rel \<noteq> PBXPROJ_PATH"
  by (auto simp: V5_FILES_def PROJECT_DIR_def PBXPROJ_PATH_def PROJECT_NAME_def)

lemma re_sub_lit_all:
  assumes "m \<noteq> []" "\<forall>x \<in> set xs. \<not> str_in m (x @ butlast m)" "\<not> str_in m y"
  shows "re_sub [[Lit m]] [Text x, Group 1] (joined m xs y) = joined (x @ m) xs y"
  using assms(2)
proof (induction xs)
  case Nil
  have "re_search [[Lit m]] y = None" using assms(1,3) by (simp add: re_search_lit_none)
  then show ?case by (simp add: joined_def re_sub_none)
next
  case (Cons a xs)
  then have a: "\<not> str_in m (a @ butlast m)" and xs: "\<forall>x \<in> set xs. \<not> str_in m (x @ butlast m)"
    by simp_all
  have "re_search [[Lit m]] (a @ m @ joined m xs y) = Some (a, [m], joined m xs y)"
    using assms(1) a by (rule re_search_lit_at)
  moreover have "concat [m] \<noteq> []" using assms(1) by simp
  ultimately have "re_sub [[Lit m]] [Text x, Group 1] (a @ m @ joined m xs y) =
      a @ expand [Text x, Group 1] [m] @ re_sub [[Lit m]] [Text x, Group 1] (joined m xs y)"
    by (rule re_sub_some)
  with Cons.IH[OF xs] show ?case by (simp add: joined_def)
qed

lemma re_sub_sources_all:
  assumes "matches_in pat_sources s ms y"
  shows "re_sub pat_sources [Group 1, Group 2, Text x] s = concat (map (\<lambda>(a, gs). a @ concat gs @ x) ms) @ y \<and>
         s = concat (map (\<lambda>(a, gs). a @ concat gs) ms) @ y"
  using assms
proof (induction ms arbitrary: s)
  case Nil
  then show ?case by (simp add: re_sub_none)
next
  case (Cons c ms)
  obtain a gs where c: "c = (a, gs)" by (cases c)
  from Cons.prems c obtain r where f: "re_search pat_sources s = Some (a, gs, r)" and m: "matches_in pat_sources r ms y"
    by (auto split: option.splits)
  from re_search_sources_some[OF f] obtain g1 g2 where gs: "gs = [g1, g2]" by blast
  have ne: "concat gs \<noteq> []" using f by (rule sources_match_nonempty)
  have e: "expand [Group 1, Group 2, Text x] gs = concat gs @ x" unfolding gs by simp
  have "re_sub pat_sources [Group 1, Group 2, Text x] s =
      a @ expand [Group 1, Group 2, Text x] gs @ re_sub pat_sources [Group 1, Group 2, Text x] r"
    using f ne by (rule re_sub_some)
  also have "\<dots> = a @ (concat gs @ x) @ concat (map (\<lambda>(a, gs). a @ concat gs @ x) ms) @ y"
    unfolding e using Cons.IH[OF m, THEN conjunct1] by simp
  finally have 1: "re_sub pat_sources [Group 1, Group 2, Text x] s =
      concat (map (\<lambda>(a, gs). a @ concat gs @ x) (c # ms)) @ y"
    unfolding c by simp
  have "s = a @ concat gs @ r" using f by (rule re_search_split)
  also have "r = concat (map (\<lambda>(a, gs). a @ concat gs) ms) @ y" using Cons.IH[OF m] by (rule conjunct2)
  finally have 2: "s = concat (map (\<lambda>(a, gs). a @ concat gs) (c # ms)) @ y" unfolding c by simp
  from 1 2 show ?case by (rule conjI)
qed

lemma matches_in_sources:
  assumes "matches_in pat_sources s ms y"
  shows "\<forall>(a, gs) \<in> set ms. \<exists>u g. gs = [SOURCES_OPEN @ u @ FILES_OPEN, g] \<and> CHR '')'' \<notin> set g"
  using assms
proof (induction ms arbitrary: s)
  case Nil
  show ?case by simp
next
  case (Cons c ms)
  obtain a gs where c: "c = (a, gs)" by (cases c)
  from Cons.prems c obtain r where f: "re_search pat_sources s = Some (a, gs, r)" and m: "matches_in pat_sources r ms y"
    by (auto split: option.splits)
  from re_search_sources_some[OF f] have "\<exists>u g. gs = [SOURCES_OPEN @ u @ FILES_OPEN, g] \<and> CHR '')'' \<notin> set g"
    by blast
  with Cons.IH[OF m] c show ?case by simp
qed

lemma fragment_kept:
  assumes "frag \<in> set (fragments fr bf rel name s)" "plain_name n" "sublist n frag"
  shows "sublist n (insert_file fr bf rel name s)"
proof -
  let ?t1 = "[Text (file_ref fr name rel), Group 1]"
  let ?t2 = "[Text (build_file bf fr name), Group 1]"
  let ?t3 = "[Group 1, Group 2, Text (sources_ref bf name)]"
  let ?s1 = "re_sub pat_file_ref ?t1 s"
  let ?s2 = "re_sub pat_build_file ?t2 ?s1"
  have res: "insert_file fr bf rel name s = re_sub pat_sources ?t3 ?s2"
    by (simp only: insert_file_def Let_def)
  from assms(1) have "(re_search pat_file_ref s \<noteq> None \<and> frag = file_ref fr name rel) \<or>
      (re_search pat_build_file ?s1 \<noteq> None \<and> frag = build_file bf fr name) \<or>
      (re_search pat_sources ?s2 \<noteq> None \<and> frag = sources_ref bf name)"
    unfolding fragments_def Let_def by (auto split: if_splits)
  then consider (a) "re_search pat_file_ref s \<noteq> None" "frag = file_ref fr name rel"
    | (b) "re_search pat_build_file ?s1 \<noteq> None" "frag = build_file bf fr name"
    | (c) "re_search pat_sources ?s2 \<noteq> None" "frag = sources_ref bf name"
    by (elim disjE conjE)
  then show ?thesis
  proof cases
    case a
    have "sublist (file_ref fr name rel) ?s1"
      by (rule sub_contains_text[OF a(1)]) (auto simp: pat_file_ref_def dest: lit_match_nonempty[rotated])
    with assms(3) have "sublist n ?s1" unfolding a(2) by (rule sublist_trans)
    then have "sublist n ?s2" by (rule keeps_build_file[OF assms(2)])
    then show ?thesis unfolding res by (rule keeps_sources[OF assms(2)])
  next
    case b
    have "sublist (build_file bf fr name) ?s2"
      by (rule sub_contains_text[OF b(1)]) (auto simp: pat_build_file_def dest: lit_match_nonempty[rotated])
    with assms(3) have "sublist n ?s2" unfolding b(2) by (rule sublist_trans)
    then show ?thesis unfolding res by (rule keeps_sources[OF assms(2)])
  next
    case c
    have "sublist (sources_ref bf name) (re_sub pat_sources ?t3 ?s2)"
      by (rule sub_contains_text[OF c(1)]) (auto dest: sources_match_nonempty)
    with assms(3) show ?thesis unfolding res c(2) by (rule sublist_trans)
  qed
qed

subsection \<open>Facts about the run\<close>

lemma clean_items_files: "files (snd (clean_items items w)) = files w"
  by (induction items arbitrary: w) (auto simp: say_def rmtree_def split: sum.splits kind.splits)

lemma clean_items_effects:
  "effects (snd (clean_items items w)) =
     effects w @ map (\<lambda>e. Rmtree (DERIVED_DATA @ ''/'' @ fst e))
       (takeWhile (\<lambda>e. snd e = Directory) (filter (\<lambda>e. str_in ''Redi'' (fst e)) items))"
  by (induction items arbitrary: w) (auto simp: say_def rmtree_def split: sum.splits kind.splits)

lemma clean_items_error:
  "fst (clean_items items w) = rmtree_error (filter (\<lambda>e. str_in ''Redi'' (fst e)) items)"
  by (induction items arbitrary: w) (auto simp: say_def rmtree_def rmtree_error_def split: sum.splits kind.splits)

lemma clean_items_console: "prefix (console w) (console (snd (clean_items items w)))"
proof (induction items arbitrary: w)
  case Nil
  show ?case by simp
next
  case (Cons item items)
  show ?case
  proof (cases "str_in ''Redi'' (fst item) \<and> snd item = Directory")
    case True
    then obtain w' where r: "rmtree item w = Inr w'" and c: "console w' = console w"
      by (auto simp: rmtree_def)
    have "prefix (console (say (''  Removed: '' @ fst item) w'))
        (console (snd (clean_items items (say (''  Removed: '' @ fst item) w'))))"
      by (rule Cons.IH)
    then have "prefix (console w @ [''  Removed: '' @ fst item]) (console (snd (clean_items (item # items) w)))"
      using True r c by (simp add: say_def)
    then show ?thesis by (rule append_prefixD)
  next
    case False
    then show ?thesis using Cons.IH[of w]
      by (cases "snd item") (auto simp: rmtree_def)
  qed
qed

lemma clean_derived_data_files: "files (snd (clean_derived_data w)) = files w"
  by (simp add: clean_derived_data_def clean_items_files split: derived.splits)

lemma clean_derived_data_effects:
  "effects (snd (clean_derived_data w)) = effects w @ removals (derived_data w)"
  by (simp add: clean_derived_data_def removals_def redi_items_def clean_items_effects split: derived.splits)

lemma clean_derived_data_error: "fst (clean_derived_data w) = clean_error (derived_data w)"
  by (simp add: clean_derived_data_def clean_error_def redi_items_def clean_items_error rmtree_error_def
      split: derived.splits)

lemma clean_derived_data_console: "prefix (console w) (console (snd (clean_derived_data w)))"
  by (simp add: clean_derived_data_def clean_items_console split: derived.splits)

lemma clean_derived_data_result:
  assumes "clean_derived_data w = (e, w')"
  shows "files w' = files w" "effects w' = effects w @ removals (derived_data w)"
    "e = clean_error (derived_data w)" "prefix (console w) (console w')"
  using clean_derived_data_files[of w] clean_derived_data_effects[of w] clean_derived_data_error[of w]
    clean_derived_data_console[of w] assms by simp_all

lemma subprocess_run_result:
  assumes "subprocess_run shell cmd w = (r, w')"
  shows "files w' = files w" "effects w' = effects w @ [Run cmd]" "console w' = console w"
    "r = (if utf8 (stdout (shell cmd (files w))) \<and> utf8 (stderr (shell cmd (files w)))
          then Inr \<lparr>returncode = returncode (shell cmd (files w)),
                    stdout = universal_newlines (stdout (shell cmd (files w))),
                    stderr = universal_newlines (stderr (shell cmd (files w)))\<rparr>
          else Inl UnicodeDecodeError)"
  using assms by (auto simp: subprocess_run_def Let_def split: if_splits)

lemma read_text_bytes:
  "read_text path w = Inr text \<Longrightarrow> \<exists>bytes. files w path = Some bytes \<and> utf8 bytes \<and> text = universal_newlines bytes"
  by (auto simp: read_text_def split: option.splits if_splits)

lemma exists_after_copy:
  "files w PBXPROJ_PATH = Some bytes \<Longrightarrow>
   os_path_exists (say l (shutil_copy PBXPROJ_PATH (PBXPROJ_PATH @ ''.backup'') (say a (say b (say c w))))) =
   (\<lambda>p. p = PBXPROJ_PATH @ ''.backup'' \<or> files w p \<noteq> None)"
  by (auto simp: os_path_exists_def say_def shutil_copy_def fun_eq_iff)


lemma main_undecodable:
  "files w PBXPROJ_PATH = Some bytes \<Longrightarrow> \<not> utf8 bytes \<Longrightarrow>
   main rnd shell w = (Raised UnicodeDecodeError, w\<lparr>console := console w @ [replicate 50 CHR ''='',
       ''REDI iOS PROJECT SYNC'', replicate 50 CHR ''='']\<rparr>)"
  by (simp add: main_def say_def os_path_exists_def read_text_def)

text \<open>The world in which the cleaning starts, for a manifest that has been read.\<close>

lemma main_read:
  assumes "read_text PBXPROJ_PATH w = Inr text"
  shows "\<exists>wq fin. files wq = patched rnd w text \<and> derived_data wq = derived_data w \<and>
     effects wq = effects w @ Copy PBXPROJ_PATH (PBXPROJ_PATH @ ''.backup'') #
        (if files_added (loop_of rnd w text) > 0 then [Write PBXPROJ_PATH] else []) \<and>
     prefix (console w @ [replicate 50 CHR ''='', ''REDI iOS PROJECT SYNC'', replicate 50 CHR ''='',
        ''Created backup: '' @ PBXPROJ_PATH @ ''.backup''] @ printed (loop_of rnd w text)) (console wq) \<and>
     (\<forall>result wb. files (fin result wb) = files wb \<and> effects (fin result wb) = effects wb \<and>
        prefix (console wb) (console (fin result wb))) \<and>
     main rnd shell w =
       (case clean_derived_data wq of
          (Some e, wc) \<Rightarrow> (Raised e, wc)
        | (None, wc) \<Rightarrow>
            (case subprocess_run shell build_cmd (say (CHR 0x0A # ''Building project...'') wc) of
               (Inl e, wb) \<Rightarrow> (Raised e, wb)
             | (Inr result, wb) \<Rightarrow> (Returned (returncode result), fin result wb)))"
proof -
  from assms obtain bytes where b: "files w PBXPROJ_PATH = Some bytes"
    using read_text_bytes by blast
  let ?w0 = "say (replicate 50 CHR ''='') (say ''REDI iOS PROJECT SYNC'' (say (replicate 50 CHR ''='') w))"
  let ?w1 = "say (''Created backup: '' @ PBXPROJ_PATH @ ''.backup'') (shutil_copy PBXPROJ_PATH (PBXPROJ_PATH @ ''.backup'') ?w0)"
  let ?st = "loop_of rnd w text"
  let ?w2 = "?w1\<lparr>console := console ?w1 @ printed ?st\<rparr>"
  let ?w3 = "if files_added ?st > 0
             then say (CHR 0x0A # ''Updated project with '' @ str_nat (files_added ?st) @ '' files'')
                    (write_text PBXPROJ_PATH (content ?st) ?w2)
             else say (CHR 0x0A # ''No files needed adding'') ?w2"
  let ?wq = "say (CHR 0x0A # ''Cleaning Xcode caches...'') ?w3"
  let ?fin = "\<lambda>result wb.
       if returncode result = 0
       then say ([CHR 0x0A, CHR 0xE2, CHR 0x9C, CHR 0x85] @ '' BUILD SUCCEEDED'')
              ((say (CHR 0x0A # ''Build output (last 30 lines):'') wb)
                 \<lparr>console := console (say (CHR 0x0A # ''Build output (last 30 lines):'') wb) @
                    map (\<lambda>line. ''  '' @ line)
                      (last_n 30 (split_nl (py_strip (stdout result @ stderr result))))\<rparr>)
       else say ([CHR 0x0A, CHR 0xE2, CHR 0x9D, CHR 0x8C] @ '' BUILD FAILED'')
              ((say (CHR 0x0A # ''Build output (last 30 lines):'') wb)
                 \<lparr>console := console (say (CHR 0x0A # ''Build output (last 30 lines):'') wb) @
                    map (\<lambda>line. ''  '' @ line)
                      (last_n 30 (split_nl (py_strip (stdout result @ stderr result))))\<rparr>)"
  have r0: "read_text PBXPROJ_PATH ?w0 = Inr text" using assms by (simp add: read_text_def say_def)
  have e0: "os_path_exists ?w0 PBXPROJ_PATH = True" using b by (simp add: os_path_exists_def say_def)
  have ex: "os_path_exists ?w1 = (\<lambda>p. p = PBXPROJ_PATH @ ''.backup'' \<or> files w p \<noteq> None)"
    using b by (rule exists_after_copy)
  have 1: "files ?wq = patched rnd w text"
    by (simp add: patched_def say_def write_text_def shutil_copy_def)
  have 2: "derived_data ?wq = derived_data w"
    by (simp add: say_def write_text_def shutil_copy_def)
  have 3: "effects ?wq = effects w @ Copy PBXPROJ_PATH (PBXPROJ_PATH @ ''.backup'') #
        (if files_added ?st > 0 then [Write PBXPROJ_PATH] else [])"
    by (simp add: say_def write_text_def shutil_copy_def)
  have 4: "prefix (console w @ [replicate 50 CHR ''='', ''REDI iOS PROJECT SYNC'', replicate 50 CHR ''='',
        ''Created backup: '' @ PBXPROJ_PATH @ ''.backup''] @ printed ?st) (console ?wq)"
    by (simp add: say_def write_text_def shutil_copy_def prefix_def)
  have 5: "\<forall>result wb. files (?fin result wb) = files wb \<and> effects (?fin result wb) = effects wb \<and>
        prefix (console wb) (console (?fin result wb))"
    by (simp add: say_def prefix_def)
  have 6: "main rnd shell w =
       (case clean_derived_data ?wq of
          (Some e, wc) \<Rightarrow> (Raised e, wc)
        | (None, wc) \<Rightarrow>
            (case subprocess_run shell build_cmd (say (CHR 0x0A # ''Building project...'') wc) of
               (Inl e, wb) \<Rightarrow> (Raised e, wb)
             | (Inr result, wb) \<Rightarrow> (Returned (returncode result), ?fin result wb)))"
    unfolding main_def Let_def
    by (simp only: e0 not_True_eq_False if_False r0 sum.case ex loop_of_def[symmetric])
  show ?thesis
    apply (rule exI[of _ ?wq])
    apply (rule exI[of _ ?fin])
    apply (intro conjI)
         apply (rule 1)
        apply (rule 2)
       apply (rule 3)
      apply (rule 4)
     apply (rule 5)
    apply (rule 6)
    done
qed

lemma main_result:
  assumes "read_text PBXPROJ_PATH w = Inr text"
  shows "files (snd (main rnd shell w)) = patched rnd w text \<and>
     effects (snd (main rnd shell w)) =
       effects w @ Copy PBXPROJ_PATH (PBXPROJ_PATH @ ''.backup'') #
       (if files_added (loop_of rnd w text) > 0 then [Write PBXPROJ_PATH] else []) @
       removals (derived_data w) @ (if clean_error (derived_data w) = None then [Run build_cmd] else []) \<and>
     fst (main rnd shell w) =
       (case clean_error (derived_data w) of
          Some e \<Rightarrow> Raised e
        | None \<Rightarrow>
            if utf8 (stdout (shell build_cmd (patched rnd w text))) \<and>
               utf8 (stderr (shell build_cmd (patched rnd w text)))
            then Returned (returncode (shell build_cmd (patched rnd w text)))
            else Raised UnicodeDecodeError) \<and>
     prefix (console w @ [replicate 50 CHR ''='', ''REDI iOS PROJECT SYNC'', replicate 50 CHR ''='',
        ''Created backup: '' @ PBXPROJ_PATH @ ''.backup''] @ printed (loop_of rnd w text))
       (console (snd (main rnd shell w)))"
proof -
  let ?pre = "console w @ [replicate 50 CHR ''='', ''REDI iOS PROJECT SYNC'', replicate 50 CHR ''='',
        ''Created backup: '' @ PBXPROJ_PATH @ ''.backup''] @ printed (loop_of rnd w text)"
  let ?eff = "effects w @ Copy PBXPROJ_PATH (PBXPROJ_PATH @ ''.backup'') #
        (if files_added (loop_of rnd w text) > 0 then [Write PBXPROJ_PATH] else [])"
  from main_read[OF assms, of rnd shell] obtain wq fin where
    f: "files wq = patched rnd w text" and d: "derived_data wq = derived_data w" and
    e: "effects wq = ?eff" and c: "prefix ?pre (console wq)" and
    fin: "\<And>result wb. files (fin result wb) = files wb"
         "\<And>result wb. effects (fin result wb) = effects wb"
         "\<And>result wb. prefix (console wb) (console (fin result wb))" and
    m: "main rnd shell w =
       (case clean_derived_data wq of
          (Some e, wc) \<Rightarrow> (Raised e, wc)
        | (None, wc) \<Rightarrow>
            (case subprocess_run shell build_cmd (say (CHR 0x0A # ''Building project...'') wc) of
               (Inl e, wb) \<Rightarrow> (Raised e, wb)
             | (Inr result, wb) \<Rightarrow> (Returned (returncode result), fin result wb)))"
    by blast
  obtain ce wc where cl: "clean_derived_data wq = (ce, wc)" by (cases "clean_derived_data wq")
  note cr = clean_derived_data_result[OF cl]
  have wc: "files wc = patched rnd w text" "effects wc = ?eff @ removals (derived_data w)"
    "clean_error (derived_data w) = ce" "prefix ?pre (console wc)"
    using cr f d e c prefix_order.trans by auto
  show ?thesis
  proof (cases ce)
    case (Some err)
    then have "main rnd shell w = (Raised err, wc)" using m cl by simp
    with wc Some show ?thesis by simp
  next
    case None
    let ?wb0 = "say (CHR 0x0A # ''Building project...'') wc"
    obtain r wb where sr: "subprocess_run shell build_cmd ?wb0 = (r, wb)"
      by (cases "subprocess_run shell build_cmd ?wb0")
    note rr = subprocess_run_result[OF sr]
    have fw: "files ?wb0 = patched rnd w text" using wc(1) by (simp add: say_def)
    have wb: "files wb = patched rnd w text" "effects wb = ?eff @ removals (derived_data w) @ [Run build_cmd]"
      "prefix ?pre (console wb)"
      using rr wc by (auto simp: say_def intro: prefix_order.trans)
    show ?thesis
    proof (cases r)
      case (Inl err)
      then have "main rnd shell w = (Raised err, wb)" using m cl None sr by simp
      moreover have "err = UnicodeDecodeError \<and>
          \<not> (utf8 (stdout (shell build_cmd (patched rnd w text))) \<and>
             utf8 (stderr (shell build_cmd (patched rnd w text))))"
        using rr(4) Inl fw by (auto split: if_splits)
      ultimately show ?thesis using wb wc(3) None by simp
    next
      case (Inr result)
      then have mm: "main rnd shell w = (Returned (returncode result), fin result wb)"
        using m cl None sr by simp
      have "returncode result = returncode (shell build_cmd (patched rnd w text)) \<and>
          utf8 (stdout (shell build_cmd (patched rnd w text))) \<and>
          utf8 (stderr (shell build_cmd (patched rnd w text)))"
        using rr(4) Inr fw by (auto split: if_splits)
      moreover have "prefix ?pre (console (fin result wb))"
        using wb(3) fin(3) prefix_order.trans by blast
      ultimately show ?thesis using mm wb wc(3) None fin by simp
    qed
  qed
qed

lemma main_files:
  "read_text PBXPROJ_PATH w = Inr text \<Longrightarrow> files (snd (main rnd shell w)) = patched rnd w text"
  using main_result by blast

lemma main_effects:
  "read_text PBXPROJ_PATH w = Inr text \<Longrightarrow>
   effects (snd (main rnd shell w)) =
     effects w @ Copy PBXPROJ_PATH (PBXPROJ_PATH @ ''.backup'') #
     (if files_added (loop_of rnd w text) > 0 then [Write PBXPROJ_PATH] else []) @
     removals (derived_data w) @ (if clean_error (derived_data w) = None then [Run build_cmd] else [])"
  using main_result by blast


lemma main_console:
  "read_text PBXPROJ_PATH w = Inr text \<Longrightarrow>
   prefix (console w @ [replicate 50 CHR ''='', ''REDI iOS PROJECT SYNC'', replicate 50 CHR ''='',
        ''Created backup: '' @ PBXPROJ_PATH @ ''.backup''] @ printed (loop_of rnd w text))
     (console (snd (main rnd shell w)))"
  using main_result by blast

lemma main_prints:
  assumes "read_text PBXPROJ_PATH w = Inr text" "l \<in> set (printed (loop_of rnd w text))"
  shows "l \<in> set (console (snd (main rnd shell w)))"
proof -
  from main_console[OF assms(1), of rnd shell] have
    "set (console w @ [replicate 50 CHR ''='', ''REDI iOS PROJECT SYNC'', replicate 50 CHR ''='',
        ''Created backup: '' @ PBXPROJ_PATH @ ''.backup''] @ printed (loop_of rnd w text))
     \<subseteq> set (console (snd (main rnd shell w)))"
    by (rule set_mono_prefix)
  with assms(2) show ?thesis by auto
qed

lemma with_before_Nil [simp]: "with_before x [] z = z"
  by (simp add: with_before_def)

lemma with_before_Cons [simp]: "with_before x ((a, gs) # ms) z = a @ x @ concat gs @ with_before x ms z"
  by (simp add: with_before_def)

lemma with_after_Nil [simp]: "with_after x [] z = z"
  by (simp add: with_after_def)

lemma with_after_Cons [simp]: "with_after x ((a, gs) # ms) z = a @ concat gs @ x @ with_after x ms z"
  by (simp add: with_after_def)

lemma with_after_empty: "with_after [] ms z = with_before [] ms z"
  by (induction ms) auto

lemma matches_in_text: "matches_in p s ms z \<Longrightarrow> s = with_before [] ms z"
proof (induction ms arbitrary: s)
  case Nil
  then show ?case by simp
next
  case (Cons c ms)
  obtain a gs where c: "c = (a, gs)" by (cases c)
  from Cons.prems c obtain r where f: "re_search p s = Some (a, gs, r)" and m: "matches_in p r ms z"
    by (auto split: option.splits)
  from re_search_split[OF f] Cons.IH[OF m] c show ?case by simp
qed

lemma matches_in_unique:
  "matches_in p s ms z \<Longrightarrow> matches_in p s ms' z' \<Longrightarrow> ms = ms' \<and> z = z'"
proof (induction ms arbitrary: s ms')
  case Nil
  then show ?case by (cases ms') (auto split: option.splits)
next
  case (Cons c ms)
  obtain a gs where c: "c = (a, gs)" by (cases c)
  from Cons.prems(1) c obtain r where f: "re_search p s = Some (a, gs, r)" and m: "matches_in p r ms z"
    by (auto split: option.splits)
  from Cons.prems(2) f obtain ms'' where ms': "ms' = (a, gs) # ms''" and m': "matches_in p r ms'' z'"
    by (cases ms') (auto split: option.splits)
  from Cons.IH[OF m m'] ms' c show ?case by simp
qed

lemma matches_in_total:
  assumes "\<And>s a gs r. re_search p s = Some (a, gs, r) \<Longrightarrow> concat gs \<noteq> []"
  shows "\<exists>ms z. matches_in p s ms z"
proof (induction "length s" arbitrary: s rule: less_induct)
  case less
  show ?case
  proof (cases "re_search p s")
    case None
    then have "matches_in p s [] s" by simp
    then show ?thesis by blast
  next
    case (Some t)
    obtain a gs r where t: "t = (a, gs, r)" by (cases t)
    from Some t have f: "re_search p s = Some (a, gs, r)" by simp
    from re_search_split[OF f] assms[OF f] have "length r < length s" by simp
    from less[OF this] obtain ms z where "matches_in p r ms z" by blast
    with f have "matches_in p s ((a, gs) # ms) z" by simp
    then show ?thesis by blast
  qed
qed

lemma matches_in_file_ref_total: "\<exists>ms z. matches_in pat_file_ref s ms z"
  by (rule matches_in_total) (auto simp: pat_file_ref_def dest: lit_match_nonempty[rotated])

lemma matches_in_build_file_total: "\<exists>ms z. matches_in pat_build_file s ms z"
  by (rule matches_in_total) (auto simp: pat_build_file_def dest: lit_match_nonempty[rotated])

lemma matches_in_sources_total: "\<exists>ms z. matches_in pat_sources s ms z"
  by (rule matches_in_total) (rule sources_match_nonempty)

lemma re_sub_lit_matches:
  assumes "m \<noteq> []" "matches_in [[Lit m]] s ms z"
  shows "re_sub [[Lit m]] [Text x, Group 1] s = with_before x ms z \<and> (\<forall>(a, gs) \<in> set ms. gs = [m])"
  using assms(2)
proof (induction ms arbitrary: s)
  case Nil
  then show ?case by (simp add: re_sub_none)
next
  case (Cons c ms)
  obtain a gs where c: "c = (a, gs)" by (cases c)
  from Cons.prems c obtain r where f: "re_search [[Lit m]] s = Some (a, gs, r)" and mm: "matches_in [[Lit m]] r ms z"
    by (auto split: option.splits)
  from re_search_lit_some[OF f] have gs: "gs = [m]" by simp
  have ne: "concat gs \<noteq> []" using assms(1) gs by simp
  have e: "expand [Text x, Group 1] gs = x @ concat gs" unfolding gs by simp
  have "re_sub [[Lit m]] [Text x, Group 1] s =
      a @ expand [Text x, Group 1] gs @ re_sub [[Lit m]] [Text x, Group 1] r"
    using f ne by (rule re_sub_some)
  also have "\<dots> = a @ (x @ concat gs) @ with_before x ms z"
    unfolding e using Cons.IH[OF mm, THEN conjunct1] by simp
  finally have 1: "re_sub [[Lit m]] [Text x, Group 1] s = with_before x (c # ms) z"
    unfolding c by simp
  have 2: "\<forall>(a, gs) \<in> set (c # ms). gs = [m]"
    using Cons.IH[OF mm, THEN conjunct2] gs c by simp
  from 1 2 show ?case by (rule conjI)
qed

lemma re_sub_sources_matches:
  assumes "matches_in pat_sources s ms z"
  shows "re_sub pat_sources [Group 1, Group 2, Text x] s = with_after x ms z \<and>
     (\<forall>(a, gs) \<in> set ms. \<exists>u g. gs = [SOURCES_OPEN @ u @ FILES_OPEN, g] \<and> CHR '')'' \<notin> set g) \<and>
     (\<forall>r \<in> set (rests ms z). r = [] \<or> hd r = CHR '')'')"
  using assms
proof (induction ms arbitrary: s)
  case Nil
  then show ?case by (simp add: re_sub_none)
next
  case (Cons c ms)
  obtain a gs where c: "c = (a, gs)" by (cases c)
  from Cons.prems c obtain r where f: "re_search pat_sources s = Some (a, gs, r)" and m: "matches_in pat_sources r ms z"
    by (auto split: option.splits)
  from re_search_sources_some[OF f] obtain u g where gs: "gs = [SOURCES_OPEN @ u @ FILES_OPEN, g]"
    and g: "CHR '')'' \<notin> set g" and r: "r = [] \<or> hd r = CHR '')''" by blast
  have rt: "r = with_before [] ms z" using m by (rule matches_in_text)
  have ne: "concat gs \<noteq> []" using f by (rule sources_match_nonempty)
  have e: "expand [Group 1, Group 2, Text x] gs = concat gs @ x" unfolding gs by simp
  have "re_sub pat_sources [Group 1, Group 2, Text x] s =
      a @ expand [Group 1, Group 2, Text x] gs @ re_sub pat_sources [Group 1, Group 2, Text x] r"
    using f ne by (rule re_sub_some)
  also have "\<dots> = a @ (concat gs @ x) @ with_after x ms z"
    unfolding e using Cons.IH[OF m, THEN conjunct1] by simp
  finally have 1: "re_sub pat_sources [Group 1, Group 2, Text x] s = with_after x (c # ms) z"
    unfolding c by simp
  have 2: "\<forall>(a, gs) \<in> set (c # ms). \<exists>u g. gs = [SOURCES_OPEN @ u @ FILES_OPEN, g] \<and> CHR '')'' \<notin> set g"
    using Cons.IH[OF m, THEN conjunct2, THEN conjunct1] gs g c by simp
  have 3: "\<forall>r \<in> set (rests (c # ms) z). r = [] \<or> hd r = CHR '')''"
    using Cons.IH[OF m, THEN conjunct2, THEN conjunct2] r rt by simp
  from 1 2 3 show ?case by blast
qed

lemma insert_file_matches:
  assumes "matches_in pat_file_ref s ms1 z1"
    and "matches_in pat_build_file (with_before (file_ref fr name rel) ms1 z1) ms2 z2"
    and "matches_in pat_sources (with_before (build_file bf fr name) ms2 z2) ms3 z3"
  shows "insert_file fr bf rel name s = with_after (sources_ref bf name) ms3 z3"
proof -
  have 1: "re_sub pat_file_ref [Text (file_ref fr name rel), Group 1] s = with_before (file_ref fr name rel) ms1 z1"
    using re_sub_lit_matches[OF _ assms(1)[unfolded pat_file_ref_def]] by (simp add: pat_file_ref_def)
  have 2: "re_sub pat_build_file [Text (build_file bf fr name), Group 1] (with_before (file_ref fr name rel) ms1 z1) =
      with_before (build_file bf fr name) ms2 z2"
    using re_sub_lit_matches[OF _ assms(2)[unfolded pat_build_file_def]] by (simp add: pat_build_file_def)
  have 3: "re_sub pat_sources [Group 1, Group 2, Text (sources_ref bf name)] (with_before (build_file bf fr name) ms2 z2) =
      with_after (sources_ref bf name) ms3 z3"
    using re_sub_sources_matches[OF assms(3)] by blast
  show ?thesis by (simp only: insert_file_def Let_def 1 2 3)
qed






section \<open>The claims\<close>

text \<open>
  Each claim is stated for every world, every source of random bytes and every shell,
  unless it says otherwise.
\<close>










text \<open>
  Claim C5. If every candidate of \<^verbatim>\<open>V5_FILES\<close> is absent from disk or has its display name in
  the manifest text, the run does not write the manifest: the files after the run are the
  files before it plus the backup, and the effects of the run are the copy, the removals of
  derived data and, unless the cleaning raised, the build, with no write among them. A
  manifest that cannot be decoded ends the run before it touches a file.
\<close>

theorem no_insertion_no_write:
  assumes "files w PBXPROJ_PATH = Some bytes"
    and "\<forall>(rel, name) \<in> set V5_FILES.
           files w (PROJECT_DIR @ ''/'' @ rel) = None \<or> str_in name (universal_newlines bytes)"
  shows "files (snd (main rnd shell w)) =
           (if utf8 bytes then (files w)(PBXPROJ_PATH @ ''.backup'' \<mapsto> bytes) else files w) \<and>
         effects (snd (main rnd shell w)) =
           effects w @
           (if utf8 bytes
            then Copy PBXPROJ_PATH (PBXPROJ_PATH @ ''.backup'') # removals (derived_data w) @
                 (if clean_error (derived_data w) = None then [Run build_cmd] else [])
            else [])"
proof (cases "utf8 bytes")
  case False
  with assms(1) show ?thesis by (simp add: main_undecodable)
next
  case True
  let ?text = "universal_newlines bytes"
  let ?ex = "\<lambda>p. p = PBXPROJ_PATH @ ''.backup'' \<or> files w p \<noteq> None"
  let ?st = "\<lparr>content = ?text, files_added = 0, drawn = 0, printed = []\<rparr>"
  from True assms(1) have r: "read_text PBXPROJ_PATH w = Inr ?text" by (simp add: read_text_def)
  have "\<forall>(rel, name) \<in> set V5_FILES. \<not> ?ex (PROJECT_DIR @ ''/'' @ rel) \<or> str_in name (content ?st)"
    using assms(2) V5_not_backup by fastforce
  then have "same_vars (add_files ?ex rnd V5_FILES ?st) ?st" by (rule add_files_skip_all)
  then have "files_added (loop_of rnd w ?text) = 0"
    by (simp add: loop_of_def same_vars_def)
  then show ?thesis
    using True assms(1) by (simp add: main_files[OF r] main_effects[OF r] patched_def)
qed

theorem no_insertion_no_write_witness:
  "files (snd (main (\<lambda>n. 0) build_failed all_registered)) PBXPROJ_PATH = Some ''V5Config.swift V5MainView.swift'' \<and>
   files (snd (main (\<lambda>n. 0) build_failed all_registered)) (PBXPROJ_PATH @ ''.backup'') =
     Some ''V5Config.swift V5MainView.swift'' \<and>
   effects (snd (main (\<lambda>n. 0) build_failed all_registered)) =
     [Copy PBXPROJ_PATH (PBXPROJ_PATH @ ''.backup''), Rmtree (DERIVED_DATA @ ''/Redi-abc''), Run build_cmd]"
proof -
  have a: "files all_registered PBXPROJ_PATH = Some ''V5Config.swift V5MainView.swift''"
    by (simp add: all_registered_def PBXPROJ_PATH_def PROJECT_DIR_def PROJECT_NAME_def)
  have b: "\<forall>(rel, name) \<in> set V5_FILES. files all_registered (PROJECT_DIR @ ''/'' @ rel) = None \<or>
      str_in name (universal_newlines ''V5Config.swift V5MainView.swift'')"
    by (simp add: V5_FILES_def all_registered_def PROJECT_DIR_def PBXPROJ_PATH_def PROJECT_NAME_def)
  have c: "removals (derived_data all_registered) = [Rmtree (DERIVED_DATA @ ''/Redi-abc'')]"
    "clean_error (derived_data all_registered) = None"
    by (simp_all add: removals_def clean_error_def rmtree_error_def redi_items_def all_registered_def)
  have d: "effects all_registered = []" by (simp add: all_registered_def)
  have e: "PBXPROJ_PATH @ ''.backup'' \<noteq> PBXPROJ_PATH" by simp
  have f: "utf8 ''V5Config.swift V5MainView.swift''" by code_simp
  from no_insertion_no_write[OF a b, of "\<lambda>n. 0" build_failed] a c d e f show ?thesis by simp
qed




text \<open>
  Claim C7. A candidate whose file is absent from disk is skipped with the message
  \<^verbatim>\<open>SKIP: ... not on disk\<close>, for every manifest text: the loop body changes nothing but the
  lines printed, and the loop over a list with that candidate ends with the same text, the
  same counter and the same number of identifiers drawn as the loop over the list without
  it. The loop goes on after the skip, so it is not an error.
\<close>

theorem absent_never_inserted:
  assumes "\<not> ex (PROJECT_DIR @ ''/'' @ rel)"
  shows "visit ex rnd (rel, name) st = st\<lparr>printed := printed st @ [''SKIP: '' @ name @ '' not on disk'']\<rparr> \<and>
     same_vars (add_files ex rnd (cs @ (rel, name) # cs') st) (add_files ex rnd (cs @ cs') st) \<and>
     ''SKIP: '' @ name @ '' not on disk'' \<in> set (printed (add_files ex rnd (cs @ (rel, name) # cs') st))"
proof -
  let ?st = "add_files ex rnd cs st"
  have v: "visit ex rnd (rel, name) ?st = ?st\<lparr>printed := printed ?st @ [''SKIP: '' @ name @ '' not on disk'']\<rparr>"
    using assms by (rule visit_absent)
  have "same_vars (visit ex rnd (rel, name) ?st) ?st" unfolding v by (simp add: same_vars_def)
  then have "same_vars (add_files ex rnd cs' (visit ex rnd (rel, name) ?st)) (add_files ex rnd cs' ?st)"
    by (rule add_files_same_vars)
  then have "same_vars (add_files ex rnd (cs @ (rel, name) # cs') st) (add_files ex rnd (cs @ cs') st)"
    by (simp add: add_files_append)
  moreover have "(rel, name) \<in> set (cs @ (rel, name) # cs')" by simp
  then have "''SKIP: '' @ name @ '' not on disk'' \<in> set (printed (add_files ex rnd (cs @ (rel, name) # cs') st))"
    using assms by (rule add_files_skip_line)
  moreover have "visit ex rnd (rel, name) st = st\<lparr>printed := printed st @ [''SKIP: '' @ name @ '' not on disk'']\<rparr>"
    using assms by (rule visit_absent)
  ultimately show ?thesis by (intro conjI)
qed

theorem absent_never_inserted_witness:
  "files all_registered (PROJECT_DIR @ ''/'' @ ''V5/Services/V5AudioService.swift'') = None \<and>
   visit (\<lambda>p. files all_registered p \<noteq> None) (\<lambda>n. 0)
     (''V5/Services/V5AudioService.swift'', ''V5AudioService.swift'') (fresh_scan ''V5Config.swift'') =
   (fresh_scan ''V5Config.swift'')\<lparr>printed := [''SKIP: V5AudioService.swift not on disk'']\<rparr> \<and>
   same_vars
     (add_files (\<lambda>p. files all_registered p \<noteq> None) (\<lambda>n. 0)
        [(''V5/Config/V5Config.swift'', ''V5Config.swift''),
         (''V5/Services/V5AudioService.swift'', ''V5AudioService.swift'')] (fresh_scan ''V5Config.swift''))
     (add_files (\<lambda>p. files all_registered p \<noteq> None) (\<lambda>n. 0)
        [(''V5/Config/V5Config.swift'', ''V5Config.swift'')] (fresh_scan ''V5Config.swift''))"
proof -
  have a: "files all_registered (PROJECT_DIR @ ''/'' @ ''V5/Services/V5AudioService.swift'') = None"
    by (simp add: all_registered_def PBXPROJ_PATH_def PROJECT_DIR_def PROJECT_NAME_def)
  then have b: "\<not> (\<lambda>p. files all_registered p \<noteq> None) (PROJECT_DIR @ ''/'' @ ''V5/Services/V5AudioService.swift'')"
    by simp
  have p: "printed (fresh_scan ''V5Config.swift'') = []" by (simp add: fresh_scan_def)
  from absent_never_inserted[where ex = "\<lambda>p. files all_registered p \<noteq> None"
      and rel = "''V5/Services/V5AudioService.swift''" and rnd = "\<lambda>n. 0"
      and name = "''V5AudioService.swift''" and st = "fresh_scan ''V5Config.swift''"
      and cs = "[(''V5/Config/V5Config.swift'', ''V5Config.swift'')]" and cs' = "[]"] a b p
  show ?thesis by simp
qed

text \<open>
  Claim C9. Each of the three substitutions is global: it replaces every match in the text
  it is given. The claim counts the occurrences in the manifest, and there it fails
  (\<open>nested_blocks_get_no_reference\<close>): the second and the third substitution work on the
  text the earlier ones have changed. In a manifest where two Sources blocks each hold
  the end marker of the file references before their files list, the Sources pattern
  matches twice; the file-reference record inserted first holds a closing brace, after
  which the pattern matches nowhere, and the run inserts no reference at all.

  What holds (\<open>each_substitution_global\<close>), for a candidate of \<^verbatim>\<open>V5_FILES\<close> that is on disk
  and not named in the text: when the file-reference marker has the matches \<open>ms1\<close> in the
  text, the build-file marker the matches \<open>ms2\<close> in the text with the file-reference record
  before each match of \<open>ms1\<close>, and the Sources pattern the matches \<open>ms3\<close> in the text with the
  build-file record before each match of \<open>ms2\<close>, the loop body leaves the text with the
  reference after each match of \<open>ms3\<close>: however many matches there are, each gets its
  record. Such lists of matches exist for every text.
\<close>

theorem nested_blocks_get_no_reference:
  "matches_in pat_sources
     (''/* Sources */ = {/* End PBXFileReference section */files = ();};'' @
      ''/* Sources */ = {/* End PBXFileReference section */files = ();};'')
     [([], [''/* Sources */ = {/* End PBXFileReference section */files = ('', []]),
      ('');};'', [''/* Sources */ = {/* End PBXFileReference section */files = ('', []])]
     '');};'' \<and>
   files (snd (main (\<lambda>n. 0) build_failed nested_blocks)) PBXPROJ_PATH =
     Some (''/* Sources */ = {'' @ file_ref (generate_uuid 0) ''V5Config.swift'' ''V5/Config/V5Config.swift'' @
           ''/* End PBXFileReference section */files = ();};'' @
           ''/* Sources */ = {'' @ file_ref (generate_uuid 0) ''V5Config.swift'' ''V5/Config/V5Config.swift'' @
           ''/* End PBXFileReference section */files = ();};'')"
  by code_simp

theorem each_substitution_global:
  assumes "(rel, name) \<in> set V5_FILES" "ex (PROJECT_DIR @ ''/'' @ rel)" "\<not> str_in name (content st)"
    and "matches_in pat_file_ref (content st) ms1 z1"
    and "matches_in pat_build_file
           (with_before (file_ref (generate_uuid (rnd (drawn st))) name rel) ms1 z1) ms2 z2"
    and "matches_in pat_sources
           (with_before (build_file (generate_uuid (rnd (drawn st + 1))) (generate_uuid (rnd (drawn st))) name)
              ms2 z2) ms3 z3"
  shows "content st = with_before [] ms1 z1 \<and>
     (\<forall>(a, gs) \<in> set ms1. gs = [''/* End PBXFileReference section */'']) \<and>
     (\<forall>(a, gs) \<in> set ms2. gs = [''/* End PBXBuildFile section */'']) \<and>
     (\<forall>(a, gs) \<in> set ms3. \<exists>u g. gs = [SOURCES_OPEN @ u @ FILES_OPEN, g] \<and> CHR '')'' \<notin> set g) \<and>
     content (visit ex rnd (rel, name) st) =
       with_after (sources_ref (generate_uuid (rnd (drawn st + 1))) name) ms3 z3 \<and>
     (\<exists>ms z. matches_in pat_file_ref t ms z) \<and> (\<exists>ms z. matches_in pat_build_file t ms z) \<and>
     (\<exists>ms z. matches_in pat_sources t ms z)"
proof -
  let ?fr = "generate_uuid (rnd (drawn st))" and ?bf = "generate_uuid (rnd (drawn st + 1))"
  have 1: "content st = with_before [] ms1 z1" using assms(4) by (rule matches_in_text)
  have 2: "\<forall>(a, gs) \<in> set ms1. gs = [''/* End PBXFileReference section */'']"
    using re_sub_lit_matches[OF _ assms(4)[unfolded pat_file_ref_def]] by simp
  have 3: "\<forall>(a, gs) \<in> set ms2. gs = [''/* End PBXBuildFile section */'']"
    using re_sub_lit_matches[OF _ assms(5)[unfolded pat_build_file_def]] by simp
  have 4: "\<forall>(a, gs) \<in> set ms3. \<exists>u g. gs = [SOURCES_OPEN @ u @ FILES_OPEN, g] \<and> CHR '')'' \<notin> set g"
    using re_sub_sources_matches[OF assms(6)] by blast
  have "content (visit ex rnd (rel, name) st) = insert_file ?fr ?bf rel name (content st)"
    using assms(2,3) by (simp add: visit_insert)
  also have "\<dots> = with_after (sources_ref ?bf name) ms3 z3"
    using assms(4,5,6) by (rule insert_file_matches)
  finally have 5: "content (visit ex rnd (rel, name) st) = with_after (sources_ref ?bf name) ms3 z3" .
  from 1 2 3 4 5 matches_in_file_ref_total matches_in_build_file_total matches_in_sources_total
  show ?thesis by blast
qed

theorem each_substitution_global_witness:
  "content (visit (\<lambda>p. p = ''Redi/V5/Config/V5Config.swift'') (\<lambda>n. 0)
      (''V5/Config/V5Config.swift'', ''V5Config.swift'') (fresh_scan two_targets)) =
   ''B'' @ build_file (generate_uuid 0) (generate_uuid 0) ''V5Config.swift'' @ ''/* End PBXBuildFile section */'' @
   ''B'' @ build_file (generate_uuid 0) (generate_uuid 0) ''V5Config.swift'' @ ''/* End PBXBuildFile section */'' @
   ''R'' @ file_ref (generate_uuid 0) ''V5Config.swift'' ''V5/Config/V5Config.swift'' @ ''/* End PBXFileReference section */'' @
   ''R'' @ file_ref (generate_uuid 0) ''V5Config.swift'' ''V5/Config/V5Config.swift'' @ ''/* End PBXFileReference section */'' @
   ''S/* Sources */ = {files = (A,'' @ sources_ref (generate_uuid 0) ''V5Config.swift'' @ '');};'' @
   ''/* Sources */ = {files = ('' @ sources_ref (generate_uuid 0) ''V5Config.swift'' @ '');};''"
proof -
  let ?ex = "\<lambda>p. p = ''Redi/V5/Config/V5Config.swift''"
  let ?rnd = "\<lambda>n::nat. 0 :: 128 word"
  let ?st = "fresh_scan two_targets"
  let ?fr = "file_ref (generate_uuid (?rnd (drawn ?st))) ''V5Config.swift'' ''V5/Config/V5Config.swift''"
  let ?bf = "build_file (generate_uuid (?rnd (drawn ?st + 1))) (generate_uuid (?rnd (drawn ?st))) ''V5Config.swift''"
  let ?ms1 = "[(''B/* End PBXBuildFile section */B/* End PBXBuildFile section */R'', [''/* End PBXFileReference section */'']),
               (''R'', [''/* End PBXFileReference section */''])]"
  let ?z1 = "''S/* Sources */ = {files = (A,);};/* Sources */ = {files = ();};''"
  let ?ms2 = "[(''B'', [''/* End PBXBuildFile section */'']), (''B'', [''/* End PBXBuildFile section */''])]"
  let ?z2 = "''R'' @ ?fr @ ''/* End PBXFileReference section */'' @ ''R'' @ ?fr @ ''/* End PBXFileReference section */'' @ ?z1"
  let ?ms3 = "[(''B'' @ ?bf @ ''/* End PBXBuildFile section */'' @ ''B'' @ ?bf @ ''/* End PBXBuildFile section */'' @
                ''R'' @ ?fr @ ''/* End PBXFileReference section */'' @ ''R'' @ ?fr @ ''/* End PBXFileReference section */'' @ ''S'',
                [''/* Sources */ = {files = ('', ''A,'']),
               ('');};'', [''/* Sources */ = {files = ('', ''''])]"
  let ?z3 = "'');};''"
  have a: "(''V5/Config/V5Config.swift'', ''V5Config.swift'') \<in> set V5_FILES" by (simp add: V5_FILES_def)
  have b: "?ex (PROJECT_DIR @ ''/'' @ ''V5/Config/V5Config.swift'')" by (simp add: PROJECT_DIR_def)
  have c: "\<not> str_in ''V5Config.swift'' (content ?st)" by code_simp
  have d: "matches_in pat_file_ref (content ?st) ?ms1 ?z1" by code_simp
  have e: "matches_in pat_build_file (with_before ?fr ?ms1 ?z1) ?ms2 ?z2" by code_simp
  have f: "matches_in pat_sources (with_before ?bf ?ms2 ?z2) ?ms3 ?z3" by code_simp
  have g: "drawn ?st = 0" by (simp add: fresh_scan_def)
  from each_substitution_global[where ex = ?ex and rnd = ?rnd and st = ?st, OF a b c d e f]
  have "content (visit ?ex ?rnd (''V5/Config/V5Config.swift'', ''V5Config.swift'') ?st) =
      with_after (sources_ref (generate_uuid (?rnd (drawn ?st + 1))) ''V5Config.swift'') ?ms3 ?z3"
    by blast
  then show ?thesis by (simp add: g)
qed

end
